theory Spec2Isabelle
  imports Main
begin

section \<open>Package util: registry prefixes of image names and tags\<close>

text \<open>
  Go strings are byte sequences; they are modelled as \<open>string\<close> (a list of 8-bit
  characters). The three functions of the standard library that the package calls are
  modelled first.
\<close>

text \<open>\<^verbatim>\<open>strings.HasPrefix(s, prefix)\<close>: \<^verbatim>\<open>len(s) >= len(prefix) && s[:len(prefix)] == prefix\<close>.\<close>

definition HasPrefix :: "string \<Rightarrow> string \<Rightarrow> bool" where
  "HasPrefix s p = (length p \<le> length s \<and> take (length p) s = p)"

text \<open>
  \<^verbatim>\<open>strings.Fields\<close> splits around runs of white space as \<^verbatim>\<open>unicode.IsSpace\<close> defines it.
  \<open>spaceWidth s\<close> is the number of bytes of the white-space rune at the head of \<open>s\<close>, and
  0 when there is none: the six ASCII characters, U+0085 and U+00A0 (two bytes in UTF-8),
  and U+1680, U+2000..U+200A, U+2028, U+2029, U+202F, U+205F, U+3000 (three bytes). The lead
  bytes of these encodings are never continuation bytes, so the decoder of the \<^verbatim>\<open>range\<close>
  loop always stands at a rune boundary when it meets one.
\<close>

definition asciiSpace :: "char \<Rightarrow> bool" where
  "asciiSpace c = (c \<in> set [CHR 0x09, CHR 0x0A, CHR 0x0B, CHR 0x0C, CHR 0x0D, CHR 0x20])"

fun spaceWidth :: "string \<Rightarrow> nat" where
  "spaceWidth [] = 0"
| "spaceWidth [c] = (if asciiSpace c then 1 else 0)"
| "spaceWidth [c, d] =
     (if asciiSpace c then 1
      else if c = CHR 0xC2 \<and> (d = CHR 0x85 \<or> d = CHR 0xA0) then 2 else 0)"
| "spaceWidth (c # d # e # _) =
     (if asciiSpace c then 1
      else if c = CHR 0xC2 \<and> (d = CHR 0x85 \<or> d = CHR 0xA0) then 2
      else if c = CHR 0xE1 \<and> d = CHR 0x9A \<and> e = CHR 0x80 then 3
      else if c = CHR 0xE2 \<and> d = CHR 0x80 \<and>
              e \<in> set [CHR 0x80, CHR 0x81, CHR 0x82, CHR 0x83, CHR 0x84, CHR 0x85, CHR 0x86,
                       CHR 0x87, CHR 0x88, CHR 0x89, CHR 0x8A, CHR 0xA8, CHR 0xA9, CHR 0xAF]
           then 3
      else if c = CHR 0xE2 \<and> d = CHR 0x81 \<and> e = CHR 0x9F then 3
      else if c = CHR 0xE3 \<and> d = CHR 0x80 \<and> e = CHR 0x80 then 3
      else 0)"

text \<open>
  The scan of \<^verbatim>\<open>strings.Fields\<close>: \<open>skip\<close> counts the bytes of a white-space rune still
  to be passed over, \<open>cur\<close> is the field being read (empty between fields).
\<close>

fun fieldsFrom :: "nat \<Rightarrow> string \<Rightarrow> string \<Rightarrow> string list" where
  "fieldsFrom skip cur [] = (if cur = [] then [] else [cur])"
| "fieldsFrom skip cur (c # cs) =
     (if 0 < skip then fieldsFrom (skip - 1) cur cs
      else if 0 < spaceWidth (c # cs)
        then (if cur = [] then [] else [cur]) @ fieldsFrom (spaceWidth (c # cs) - 1) [] cs
        else fieldsFrom 0 (cur @ [c]) cs)"

definition Fields :: "string \<Rightarrow> string list" where
  "Fields s = fieldsFrom 0 [] s"

text \<open>\<^verbatim>\<open>strings.Join(elems, sep)\<close>.\<close>

fun Join :: "string list \<Rightarrow> string \<Rightarrow> string" where
  "Join [] sep = []"
| "Join [x] sep = x"
| "Join (x # y # ys) sep = x @ sep @ Join (y # ys) sep"

text \<open>
  \<^verbatim>\<open>
  func PrefixRegistryToImageName(registry string, img string) string {
      if registry == "" { return img }
      if !strings.HasPrefix(img, registry) && !strings.HasPrefix(img, "library/") {
          return fmt.Sprintf("%s/%s", registry, img)
      }
      return img
  }
  \<close>
\<close>

definition PrefixRegistryToImageName :: "string \<Rightarrow> string \<Rightarrow> string" where
  "PrefixRegistryToImageName registry img =
     (if registry = [] then img
      else if \<not> HasPrefix img registry \<and> \<not> HasPrefix img ''library/''
        then registry @ ''/'' @ img
        else img)"

text \<open>
  \<^verbatim>\<open>
  func PrefixTags(cmd string, registry string) (string, []string) {
      tags := []string{}
      fields := strings.Fields(cmd)
      for i := 1; i < len(fields); i++ {
          if fields[i-1] == "-t" || fields[i-1] == "--tag" {
              fields[i] = PrefixRegistryToImageName(registry, fields[i])
              tags = append(tags, fields[i])
          }
      }
      return strings.Join(fields, " "), tags
  }
  \<close>
  The loop updates \<open>fields\<close> in place, so the test at index \<open>i\<close> reads the field at
  \<open>i - 1\<close> as the previous iteration left it.
\<close>

definition isTagFlag :: "string \<Rightarrow> bool" where
  "isTagFlag f = (f = ''-t'' \<or> f = ''--tag'')"

function PrefixTags_loop ::
  "string \<Rightarrow> nat \<Rightarrow> string list \<Rightarrow> string list \<Rightarrow> string list \<times> string list" where
  "PrefixTags_loop registry i fields tags =
     (if i < length fields then
        (if isTagFlag (fields ! (i - 1)) then
           (let v = PrefixRegistryToImageName registry (fields ! i)
            in PrefixTags_loop registry (i + 1) (fields[i := v]) (tags @ [v]))
         else PrefixTags_loop registry (i + 1) fields tags)
      else (fields, tags))"
  by pat_completeness auto
termination
  by (relation "measure (\<lambda>(registry, i, fields, tags). length fields - i)") auto

declare PrefixTags_loop.simps [simp del]

definition PrefixTags :: "string \<Rightarrow> string \<Rightarrow> string \<times> string list" where
  "PrefixTags cmd registry =
     (let (fields, tags) = PrefixTags_loop registry 1 (Fields cmd) []
      in (Join fields '' '', tags))"

text \<open>
  The reading of the specification, for comparison with \<open>PrefixTags\<close>: every field of the
  command that stands right after a \<^verbatim>\<open>-t\<close> or \<^verbatim>\<open>--tag\<close> field is replaced by
  \<^verbatim>\<open>registry/field\<close>, unless it already starts with \<^verbatim>\<open>registry/\<close> or \<^verbatim>\<open>library/\<close>;
  the tags are the replaced fields in order.
\<close>

definition claimedTag :: "string \<Rightarrow> string \<Rightarrow> string" where
  "claimedTag registry t =
     (if HasPrefix t (registry @ ''/'') \<or> HasPrefix t ''library/'' then t
      else registry @ ''/'' @ t)"

definition PrefixTags_claimed :: "string \<Rightarrow> string \<Rightarrow> string \<times> string list" where
  "PrefixTags_claimed cmd registry =
     (let fields = Fields cmd;
          out = map (\<lambda>i. if 0 < i \<and> isTagFlag (fields ! (i - 1))
                          then claimedTag registry (fields ! i) else fields ! i)
                    [0..<length fields]
      in (Join out '' '',
          map ((!) out) (filter (\<lambda>i. isTagFlag (fields ! (i - 1))) [1..<length fields])))"


text \<open>
  \<open>noFlagAfterFlag fields\<close>: no \<^verbatim>\<open>-t\<close> or \<^verbatim>\<open>--tag\<close> field stands right after another one.
  \<open>prefixedFields\<close> and \<open>prefixedTags\<close> give, for such a command, the fields and the tags in
  closed form: the field after a flag is kept when it starts with the registry string or
  with \<^verbatim>\<open>library/\<close>, and becomes \<^verbatim>\<open>registry/field\<close> otherwise.
\<close>

fun noFlagAfterFlag :: "string list \<Rightarrow> bool" where
  "noFlagAfterFlag (x # y # zs) = (\<not> (isTagFlag x \<and> isTagFlag y) \<and> noFlagAfterFlag (y # zs))"
| "noFlagAfterFlag fields = True"

definition prefixedFields :: "string \<Rightarrow> string list \<Rightarrow> string list" where
  "prefixedFields registry fields =
     map (\<lambda>i. if 0 < i \<and> isTagFlag (fields ! (i - 1)) then
                 (if HasPrefix (fields ! i) registry \<or> HasPrefix (fields ! i) ''library/''
                  then fields ! i else registry @ ''/'' @ fields ! i)
               else fields ! i)
         [0..<length fields]"

definition prefixedTags :: "string \<Rightarrow> string list \<Rightarrow> string list" where
  "prefixedTags registry fields =
     map ((!) (prefixedFields registry fields))
         (filter (\<lambda>i. isTagFlag (fields ! (i - 1))) [1..<length fields])"


section \<open>Package builder: the executor of a task\<close>

text \<open>
  A Go \<^verbatim>\<open>error\<close> that is not nil is represented by its message; a value of type
  \<open>error option\<close> is a Go error with \<open>None\<close> for nil. \<open>Wrap\<close> is \<^verbatim>\<open>errors.Wrap\<close> and
  \<^verbatim>\<open>errors.Wrapf\<close> of \<^verbatim>\<open>github.com/pkg/errors\<close> on an error that is not nil.
\<close>

type_synonym error = string

definition Wrap :: "error \<Rightarrow> string \<Rightarrow> error" where
  "Wrap err message = message @ '': '' @ err"

subsection \<open>The task model, as far as the builder reads it\<close>

datatype StepStatus = Skipped | InProgress | Successful | Failed

record Dependencies =
  DepImage :: string
  DepRuntime :: string
  DepBuildtime :: "string list"

text \<open>
  The fields of \<^verbatim>\<open>graph.Step\<close> that \<^verbatim>\<open>builder.go\<close> reads or writes. The completion channel
  \<^verbatim>\<open>CompletedChan\<close> of a step is identified by the step's \<open>ID\<close>; start and end times are
  not modelled.
\<close>

record Step =
  ID :: string
  Cmd :: string
  Build :: string
  Push :: "string list"
  Pull :: bool
  EntryPoint :: string
  WorkingDirectory :: string
  Isolation :: string
  Timeout :: int
  StartDelay :: int
  Retries :: int
  RetryOnErrors :: "string list"
  RetryDelayInSeconds :: int
  Repeat :: int
  CmdDownloadRetries :: int
  CmdDownloadRetryDelayInSeconds :: int
  IgnoreErrors :: bool
  UsesBuildkit :: bool
  Tags :: "string list"
  BuildArgs :: "string list"
  StepStatus :: StepStatus
  ImageDependencies :: "Dependencies list"

text \<open>
  Modelled from the spec: the methods \<^verbatim>\<open>IsBuildStep\<close>, \<^verbatim>\<open>IsPushStep\<close> and \<^verbatim>\<open>IsCmdStep\<close> of
  \<^verbatim>\<open>graph.Step\<close> are not among the sources. The kind of a step is "determined by field
  presence: Build (has build string), Push (has push list), or Cmd (has cmd string)".
\<close>

definition IsBuildStep :: "Step \<Rightarrow> bool" where
  "IsBuildStep s = (Build s \<noteq> [])"

definition IsPushStep :: "Step \<Rightarrow> bool" where
  "IsPushStep s = (Push s \<noteq> [])"

definition IsCmdStep :: "Step \<Rightarrow> bool" where
  "IsCmdStep s = (Cmd s \<noteq> [])"

record Node =
  Name :: string
  Value :: Step

record Network =
  NetName :: string
  Driver :: string
  SkipCreation :: bool

text \<open>\<open>Secret\<close> is \<^verbatim>\<open>volMount.Source.Secret\<close>, a map from file names to Base64 text, nil or not.\<close>

record Volume =
  VolName :: string
  Secret :: "(string \<times> string) list option"

text \<open>
  \<open>Nodes\<close> lists \<^verbatim>\<open>task.Dag.Nodes\<close> and \<open>RegistryLoginCredentials\<close> the credentials map, each
  in the order in which the \<^verbatim>\<open>range\<close> loop of the run visits the map; \<open>RootChildren\<close> is
  \<^verbatim>\<open>task.Dag.Root.Children()\<close> and \<open>Root\<close> is the root node.
\<close>

record Task =
  Networks :: "Network list"
  Volumes :: "Volume list"
  Steps :: "Step list"
  RegistryLoginCredentials :: "(string \<times> string \<times> string) list"
  InitBuildkitContainer :: bool
  Nodes :: "Node list"
  Root :: Node
  RootChildren :: "Node list"

record Builder =
  workspaceDir :: string
  debug :: bool

text \<open>
  Functions and constants of the repository that \<^verbatim>\<open>builder.go\<close> uses and that are not among
  the sources are parameters of the model.
\<close>

record helpers =
  GOOS :: string
  WindowsOS :: string
  LinuxOS :: string
  WindowServerCore2019Image :: string
  DockerSocketVolumeMapping :: string
  buildkitdContainerName :: string
  buildkitdContainerInitRetries :: int
  buildkitdContainerInitRetryDelay :: int
  buildkitdContainerInitRepeat :: int
  UsingRegistryCreds :: "Task \<Rightarrow> bool"
  getDockerRunArgs :: "string \<Rightarrow> string \<Rightarrow> string \<Rightarrow> string list"
  getDockerRunArgsForStep :: "string \<Rightarrow> string \<Rightarrow> Step \<Rightarrow> string \<Rightarrow> string \<Rightarrow> string list"
  parseDockerBuildCmd :: "string \<Rightarrow> string \<times> string \<times> string"
  IsLocalContext :: "string \<Rightarrow> bool"
  IsSourceControlURL :: "string \<Rightarrow> bool"
  getContextFromGitURL :: "string \<Rightarrow> string"
  replacePositionalContext :: "string \<Rightarrow> string \<Rightarrow> string"
  UpdateBuildStepWithDefaults :: "Step \<Rightarrow> Step"
  UseBuildCacheForBuildStep :: "Step \<Rightarrow> bool"
  ContainsImageDependency :: "Step \<Rightarrow> string \<Rightarrow> bool"

subsection \<open>What a goroutine does, in program order\<close>

text \<open>
  The calls to the process manager and to the other collaborators, the channel operations,
  the \<^verbatim>\<open>go\<close> statements and the writes of a step's terminal status (\<open>Successful\<close> or
  \<open>Failed\<close>) are recorded as events, in the order in which the goroutine reaches them.
  Contexts and their timeouts are not modelled; of the log output, only the two lines that
  report an error which is not returned.
\<close>

datatype event =
    Sleep int
  | NetworkCreate string
  | SetupConfig
  | DockerLogin string string string
  | ProcRun "string list"
  | ProcRunWithRetries "string list" int "string list" int string
  | ProcRunRepeatWithRetries "string list" int "string list" int string int
  | ScrapeDependencies string string string string string "string list" "string list" string
  | PushWithRetries "string list"
  | CreateSecretFiles string
  | PopulateSecretVolume string
  | PopulateDigests string bool
  | Log string "string list"
  | SetStatus string StepStatus
  | Go string string
  | SendError error
  | SendCompleted string

subsection \<open>runStep\<close>

text \<open>
  The results of the collaborators that one execution of \<^verbatim>\<open>runStep\<close> may call:
  \<^verbatim>\<open>pullImageBeforeRun\<close>, \<^verbatim>\<open>scrapeDependencies\<close>, \<^verbatim>\<open>pushWithRetries\<close> and the final
  \<^verbatim>\<open>RunRepeatWithRetries\<close>.
\<close>

record step_env =
  pullResult :: "error option"
  scrapeResult :: "error + Dependencies list"
  pushResult :: "error option"
  runResult :: "error option"

text \<open>
  \<^verbatim>\<open>
  func parseImageNameFromArgs(cmdArgs string) string {
      idx := strings.Index(cmdArgs, " ")
      if idx < 0 { return cmdArgs }
      return cmdArgs[:idx]
  }
  \<close>
\<close>

definition parseImageNameFromArgs :: "string \<Rightarrow> string" where
  "parseImageNameFromArgs cmdArgs =
     (if CHR '' '' \<notin> set cmdArgs then cmdArgs
      else takeWhile (\<lambda>c. c \<noteq> CHR '' '') cmdArgs)"

text \<open>The arguments of \<^verbatim>\<open>pullImageBeforeRun\<close> and of \<^verbatim>\<open>preRunWindowsContainer\<close>.\<close>

definition pullArgs :: "helpers \<Rightarrow> string \<Rightarrow> string list" where
  "pullArgs h cmdArgs =
     [''docker'', ''run'', ''--rm'', ''--volume'', DockerSocketVolumeMapping h,
      ''docker'', ''pull'', parseImageNameFromArgs cmdArgs]"

definition preRunArgs :: "helpers \<Rightarrow> Step \<Rightarrow> string list" where
  "preRunArgs h step =
     [''docker'', ''run'', ''--rm'', ''--name'', ID step @ ''_prerun'',
      ''--isolation'', ''hyperv'', ''--pull'', ''always'', WindowServerCore2019Image h]"

definition dockerImg :: string where "dockerImg = ''docker''"

definition buildxImg :: string where "buildxImg = ''buildx''"

text \<open>
  Lines 326 to 354 of \<^verbatim>\<open>runStep\<close>, which a build step and a command step share: the
  Windows pre-run behind the package-level latch \<^verbatim>\<open>once\<close> (\<open>True\<close> once it has fired), then
  the step's own command through \<^verbatim>\<open>RunRepeatWithRetries\<close>.
\<close>

definition needsPreRun :: "helpers \<Rightarrow> Step \<Rightarrow> bool" where
  "needsPreRun h step =
     (GOOS h = WindowsOS h \<and> (Isolation step = [] \<or> Isolation step = ''hyperv'') \<and>
      (parseImageNameFromArgs (Cmd step) = WindowServerCore2019Image h \<or>
       ContainsImageDependency h step (WindowServerCore2019Image h)))"

definition runStepCommand ::
  "helpers \<Rightarrow> step_env \<Rightarrow> bool \<Rightarrow> Step \<Rightarrow> string list \<Rightarrow> event list
     \<Rightarrow> error option \<times> Step \<times> bool \<times> event list" where
  "runStepCommand h env once step args evs =
     (let fire = (needsPreRun h step \<and> \<not> once)
      in (runResult env, step, once \<or> needsPreRun h step,
          evs @ (if fire then [ProcRun (preRunArgs h step)] else []) @
          [ProcRunRepeatWithRetries args (Retries step) (RetryOnErrors step)
             (RetryDelayInSeconds step) (ID step) (Repeat step)]))"

definition runStepBuild ::
  "helpers \<Rightarrow> Builder \<Rightarrow> step_env \<Rightarrow> bool \<Rightarrow> Step \<Rightarrow> event list
     \<Rightarrow> error option \<times> Step \<times> bool \<times> event list" where
  "runStepBuild h b env once step evs =
     (case parseDockerBuildCmd h (Build step) of (dockerfile, target, dockerContext) \<Rightarrow>
      let volName = workspaceDir b;
          evs' = evs @ [ScrapeDependencies volName (WorkingDirectory step) (ID step) dockerfile
                          dockerContext (Tags step) (BuildArgs step) target]
      in case scrapeResult env of
           Inl err \<Rightarrow> (Some (Wrap err ''failed to scan dependencies''), step, once, evs')
         | Inr deps \<Rightarrow>
             let step1 = step\<lparr>ImageDependencies := deps\<rparr>;
                 workingDirectory =
                   (if \<not> IsLocalContext h dockerContext then
                      (if IsSourceControlURL h dockerContext
                       then ID step1 @ ''/'' @ getContextFromGitURL h dockerContext
                       else ID step1)
                    else WorkingDirectory step1);
                 step2 =
                   (if \<not> IsLocalContext h dockerContext
                    then step1\<lparr>Build := replacePositionalContext h (Build step1) ''.''\<rparr>
                    else step1);
                 step3 = UpdateBuildStepWithDefaults h step2;
                 args =
                   (if UseBuildCacheForBuildStep h step3
                    then getDockerRunArgsForStep h volName workingDirectory step3 []
                           (buildxImg @ '' build '' @ Build step3)
                    else getDockerRunArgsForStep h volName workingDirectory step3 []
                           (dockerImg @ '' build '' @ Build step3))
             in runStepCommand h env once step3 args evs')"

definition runStep ::
  "helpers \<Rightarrow> Builder \<Rightarrow> step_env \<Rightarrow> bool \<Rightarrow> Step
     \<Rightarrow> error option \<times> Step \<times> bool \<times> event list" where
  "runStep h b env once step =
     (let evs0 = (if 0 < StartDelay step then [Sleep (StartDelay step)] else []);
          pull = (IsCmdStep step \<and> Pull step);
          evs1 = evs0 @
            (if pull
             then [ProcRunWithRetries (pullArgs h (Cmd step)) (CmdDownloadRetries step) []
                     (CmdDownloadRetryDelayInSeconds step) []]
             else [])
      in if pull \<and> pullResult env \<noteq> None then (pullResult env, step, once, evs1)
         else
           let step1 = step\<lparr>StepStatus := InProgress\<rparr>
           in if IsBuildStep step1 then runStepBuild h b env once step1 evs1
              else if IsPushStep step1
                then (pushResult env, step1, once, evs1 @ [PushWithRetries (Push step1)])
              else runStepCommand h env once step1
                     (getDockerRunArgsForStep h (workspaceDir b) (WorkingDirectory step1) step1
                        (EntryPoint step1) (Cmd step1))
                     evs1)"

subsection \<open>processVertex\<close>

text \<open>
  What the worker finds when it runs: the result of \<^verbatim>\<open>task.Dag.RemoveEdge\<close>, the degree
  \<^verbatim>\<open>child.GetDegree()\<close> read after it, the children \<^verbatim>\<open>child.Children()\<close>, the state of the
  latch, and the results of the collaborators of \<^verbatim>\<open>runStep\<close>.
\<close>

record vertex_env =
  removeEdgeResult :: "error option"
  degree :: int
  children :: "Node list"
  onceDone :: bool
  stepEnv :: step_env

text \<open>
  \<^verbatim>\<open>
  err := task.Dag.RemoveEdge(parent.Name, child.Name)
  if err != nil {
      errorChan <- errors.Wrap(err, "failed to remove edge")
      return
  }
  degree := child.GetDegree()
  if degree == 0 {
      step := child.Value
      err := b.runStep(ctx, step, task.Credentials)
      if err != nil && step.IgnoreErrors {
          log.Printf("Step ID: %s encountered an error: %v, but is set to ignore errors. Continuing...\n", step.ID, err)
          step.StepStatus = graph.Successful
          for _, c := range child.Children() {
              go b.processVertex(ctx, task, child, c, errorChan)
          }
      } else if err != nil {
          step.StepStatus = graph.Failed
          errorChan <- errors.Wrapf(err, "failed to run step ID: %s", step.ID)
      } else {
          step.StepStatus = graph.Successful
          for _, c := range child.Children() {
              go b.processVertex(ctx, task, child, c, errorChan)
          }
      }
      // Step must always be marked as complete.
      step.CompletedChan <- true
  }
  \<close>
  The result is the step as the worker leaves it, the state of the latch, and the events of
  the worker in program order. A send on a channel may block; the events after it are
  reached only if it completes.
\<close>

definition spawnChildren :: "Node \<Rightarrow> Node list \<Rightarrow> event list" where
  "spawnChildren child cs = map (\<lambda>c. Go (Name child) (Name c)) cs"

definition processVertex ::
  "helpers \<Rightarrow> Builder \<Rightarrow> vertex_env \<Rightarrow> Node \<Rightarrow> Node \<Rightarrow> Step \<times> bool \<times> event list" where
  "processVertex h b env parent child =
     (case removeEdgeResult env of
        Some err \<Rightarrow> (Value child, onceDone env, [SendError (Wrap err ''failed to remove edge'')])
      | None \<Rightarrow>
          if degree env = 0 then
            (case runStep h b (stepEnv env) (onceDone env) (Value child) of
               (err, step, once, evs) \<Rightarrow>
                 (case err of
                    Some e \<Rightarrow>
                      if IgnoreErrors step then
                        (step\<lparr>StepStatus := Successful\<rparr>, once,
                         evs @ [Log ''Step ID: %s encountered an error: %v, but is set to ignore errors. Continuing...'' [ID step, e],
                                SetStatus (ID step) Successful] @
                         spawnChildren child (children env) @ [SendCompleted (ID step)])
                      else
                        (step\<lparr>StepStatus := Failed\<rparr>, once,
                         evs @ [SetStatus (ID step) Failed,
                                SendError (Wrap e (''failed to run step ID: '' @ ID step)),
                                SendCompleted (ID step)])
                  | None \<Rightarrow>
                      (step\<lparr>StepStatus := Successful\<rparr>, once,
                       evs @ [SetStatus (ID step) Successful] @
                       spawnChildren child (children env) @ [SendCompleted (ID step)])))
          else (Value child, onceDone env, []))"


subsection \<open>RunTask\<close>

text \<open>
  The \<^verbatim>\<open>select\<close> statement of the completion barrier has three cases: \<^verbatim>\<open>ctx.Done()\<close>,
  the completion channel of the current iteration, and the error channel. A
  \<open>select_outcome\<close> names the case that fires, with \<^verbatim>\<open>ctx.Err()\<close> or the error received.
\<close>

datatype select_outcome = CtxDone error | Completed | StepError error

text \<open>
  The results of the collaborators of \<^verbatim>\<open>RunTask\<close>, by the position of the network,
  credential, volume or step they are called for; the cases that the selects of the barrier
  take, in order; and the steps of the task as the workers have left them when the barrier
  is passed.
\<close>

record run_env =
  networkCreateResult :: "nat \<Rightarrow> string \<times> error option"
  setupConfigResult :: "error option"
  loginResult :: "nat \<Rightarrow> error option"
  buildkitResult :: "error option"
  createSecretFilesResult :: "nat \<Rightarrow> error option"
  populateSecretVolumeResult :: "nat \<Rightarrow> error option"
  selects :: "select_outcome list"
  workersLeave :: "Step list \<Rightarrow> Step list"
  populateDigestsResult :: "nat \<Rightarrow> error option"
  marshalResult :: "error option"

text \<open>Lines 52 to 62: the networks.\<close>

fun createNetworks :: "run_env \<Rightarrow> nat \<Rightarrow> Network list \<Rightarrow> error option \<times> event list" where
  "createNetworks env i [] = (None, [])"
| "createNetworks env i (network # rest) =
     (if SkipCreation network then createNetworks env (Suc i) rest
      else
        (case networkCreateResult env i of
           (msg, Some err) \<Rightarrow>
             (Some (''failed to create network: '' @ NetName network @ '', err: '' @ err @
                    '', msg: '' @ msg),
              [NetworkCreate (NetName network)])
         | (msg, None) \<Rightarrow>
             (case createNetworks env (Suc i) rest of
                (r, evs) \<Rightarrow> (r, NetworkCreate (NetName network) # evs))))"

text \<open>Lines 72 to 83: the registry logins.\<close>

fun loginAll ::
  "run_env \<Rightarrow> nat \<Rightarrow> (string \<times> string \<times> string) list \<Rightarrow> error option \<times> event list" where
  "loginAll env i [] = (None, [])"
| "loginAll env i ((registry, username, password) # rest) =
     (case loginResult env i of
        Some err \<Rightarrow> (Some err, [DockerLogin registry username password])
      | None \<Rightarrow>
          (case loginAll env (Suc i) rest of
             (r, evs) \<Rightarrow> (r, DockerLogin registry username password # evs)))"

text \<open>
  Lines 52 to 83 together; \<^verbatim>\<open>setupConfig\<close> is not among the sources and is a single
  call here.
\<close>

definition prepare :: "helpers \<Rightarrow> run_env \<Rightarrow> Task \<Rightarrow> error option \<times> event list" where
  "prepare h env task =
     (case createNetworks env 0 (Networks task) of
        (Some err, evs) \<Rightarrow> (Some err, evs)
      | (None, evs) \<Rightarrow>
          (case setupConfigResult env of
             Some err \<Rightarrow> (Some err, evs @ [SetupConfig])
           | None \<Rightarrow>
               if UsingRegistryCreds h task then
                 (case loginAll env 0 (RegistryLoginCredentials task) of
                    (r, evs') \<Rightarrow> (r, evs @ [SetupConfig] @ evs'))
               else (None, evs @ [SetupConfig])))"

text \<open>
  Lines 91 to 136: the buildkitd container. The error of \<^verbatim>\<open>RunRepeatWithRetries\<close> is
  logged and dropped.
\<close>

definition buildkitInit :: "helpers \<Rightarrow> Builder \<Rightarrow> event" where
  "buildkitInit h b =
     ProcRunRepeatWithRetries
       (getDockerRunArgs h (workspaceDir b) (buildkitdContainerName h) (buildxImg @ '' create --use''))
       (buildkitdContainerInitRetries h) [] (buildkitdContainerInitRetryDelay h)
       (buildkitdContainerName h) (buildkitdContainerInitRepeat h)"

definition initBuildkit :: "helpers \<Rightarrow> Builder \<Rightarrow> run_env \<Rightarrow> Task \<Rightarrow> event list" where
  "initBuildkit h b env task =
     (if InitBuildkitContainer task then
        buildkitInit h b #
        (case buildkitResult env of
           Some err \<Rightarrow> [Log (''buildx create --use failed with error: '' @ [CHR 0x27] @ ''%v'' @ [CHR 0x27])
                         [err]]
         | None \<Rightarrow> [])
      else [])"

text \<open>
  Lines 138 to 143 with \<^verbatim>\<open>prepareVolumeSource\<close>; \<^verbatim>\<open>createSecretFiles\<close> and
  \<^verbatim>\<open>populateSecretVolume\<close> are single calls here.
\<close>

definition prepareVolumeSource :: "run_env \<Rightarrow> nat \<Rightarrow> Volume \<Rightarrow> error option \<times> event list" where
  "prepareVolumeSource env i volMount =
     (case Secret volMount of
        Some secret \<Rightarrow>
          (case createSecretFilesResult env i of
             Some err \<Rightarrow> (Some err, [CreateSecretFiles (VolName volMount)])
           | None \<Rightarrow>
               (case populateSecretVolumeResult env i of
                  Some err \<Rightarrow>
                    (Some err,
                     [CreateSecretFiles (VolName volMount), PopulateSecretVolume (VolName volMount)])
                | None \<Rightarrow>
                    (None,
                     [CreateSecretFiles (VolName volMount), PopulateSecretVolume (VolName volMount)])))
      | None \<Rightarrow> (Some ''volume source type not supported yet'', []))"

fun prepareVolumes :: "run_env \<Rightarrow> nat \<Rightarrow> Volume list \<Rightarrow> error option \<times> event list" where
  "prepareVolumes env i [] = (None, [])"
| "prepareVolumes env i (volMount # rest) =
     (case prepareVolumeSource env i volMount of
        (Some err, evs) \<Rightarrow> (Some err, evs)
      | (None, evs) \<Rightarrow>
          (case prepareVolumes env (Suc i) rest of (r, evs') \<Rightarrow> (r, evs @ evs')))"

text \<open>
  Lines 153 to 162, the completion barrier:
  \<^verbatim>\<open>
  for _, ch := range completedChans {
      select {
      case <-ctx.Done():    return ctx.Err()
      case <-ch:            continue
      case err := <-errorChan:  return err
      }
  }
  \<close>
  over the cases that the selects take. \<open>Waiting\<close> is the loop at a select of which no
  case has fired.
\<close>

datatype barrier_result = Return error | Waiting | AllCompleted

fun barrier :: "string list \<Rightarrow> select_outcome list \<Rightarrow> barrier_result" where
  "barrier [] sel = AllCompleted"
| "barrier (ch # chs) [] = Waiting"
| "barrier (ch # chs) (CtxDone err # sel) = Return err"
| "barrier (ch # chs) (Completed # sel) = barrier chs sel"
| "barrier (ch # chs) (StepError err # sel) = Return err"

definition completedChans :: "Task \<Rightarrow> string list" where
  "completedChans task = map (\<lambda>node. ID (Value node)) (Nodes task)"

text \<open>
  Lines 164 to 197: the digests of the image dependencies; \<^verbatim>\<open>getPopulateDigests\<close> is a
  single call here, and \<^verbatim>\<open>json.Marshal\<close> may fail.
\<close>

fun populateAll ::
  "helpers \<Rightarrow> run_env \<Rightarrow> nat \<Rightarrow> Step list \<Rightarrow> error option \<times> Dependencies list \<times> event list" where
  "populateAll h env i [] = (None, [], [])"
| "populateAll h env i (step # rest) =
     (if ImageDependencies step \<noteq> [] then
        (let usingBuildkit =
               ((UseBuildCacheForBuildStep h step \<and> GOOS h = LinuxOS h) \<or> UsesBuildkit step)
         in case populateDigestsResult env i of
              Some err \<Rightarrow> (Some err, [], [PopulateDigests (ID step) usingBuildkit])
            | None \<Rightarrow>
                (case populateAll h env (Suc i) rest of
                   (r, deps, evs) \<Rightarrow>
                     (r, ImageDependencies step @ deps,
                      PopulateDigests (ID step) usingBuildkit # evs)))
      else populateAll h env (Suc i) rest)"

definition report :: "helpers \<Rightarrow> run_env \<Rightarrow> Task \<Rightarrow> error option \<times> event list" where
  "report h env task =
     (case populateAll h env 0 (workersLeave env (Steps task)) of
        (Some err, deps, evs) \<Rightarrow> (Some err, evs)
      | (None, deps, evs) \<Rightarrow>
          if deps \<noteq> [] then
            (case marshalResult env of
               Some err \<Rightarrow> (Some (Wrap err ''failed to unmarshal image dependencies''), evs)
             | None \<Rightarrow> (None, evs))
          else (None, evs))"

text \<open>
  Lines 138 to 197: the volumes, one worker for each child of the root, the barrier and the
  report. The first component of the result is \<open>None\<close> when the barrier waits for ever, and
  \<open>Some r\<close> when \<^verbatim>\<open>RunTask\<close> returns \<open>r\<close>.
\<close>

definition execute :: "helpers \<Rightarrow> run_env \<Rightarrow> Task \<Rightarrow> error option option \<times> event list" where
  "execute h env task =
     (case prepareVolumes env 0 (Volumes task) of
        (Some err, evs) \<Rightarrow> (Some (Some err), evs)
      | (None, evs) \<Rightarrow>
          (let evs1 = evs @ spawnChildren (Root task) (RootChildren task)
           in case barrier (completedChans task) (selects env) of
                Return err \<Rightarrow> (Some (Some err), evs1)
              | Waiting \<Rightarrow> (None, evs1)
              | AllCompleted \<Rightarrow>
                  (case report h env task of (r, evs2) \<Rightarrow> (Some r, evs1 @ evs2))))"

text \<open>
  \<^verbatim>\<open>RunTask\<close>: the result, and the events of the goroutine of \<^verbatim>\<open>RunTask\<close> itself.
\<close>

definition RunTask ::
  "helpers \<Rightarrow> Builder \<Rightarrow> run_env \<Rightarrow> Task \<Rightarrow> error option option \<times> event list" where
  "RunTask h b env task =
     (case prepare h env task of
        (Some err, evs) \<Rightarrow> (Some (Some err), evs)
      | (None, evs) \<Rightarrow>
          (case execute h env task of
             (r, evs') \<Rightarrow> (r, evs @ initBuildkit h b env task @ evs')))"

text \<open>The events of successive calls of \<^verbatim>\<open>RunTask\<close> in one process.\<close>

definition RunTasks :: "helpers \<Rightarrow> Builder \<Rightarrow> (run_env \<times> Task) list \<Rightarrow> event list" where
  "RunTasks h b runs = concat (map (\<lambda>(env, task). snd (RunTask h b env task)) runs)"

subsection \<open>The goroutines of a task run together\<close>

text \<open>
  A worker is a goroutine that runs \<^verbatim>\<open>processVertex\<close>: the events it has yet to reach and
  those it has passed. A configuration holds the workers, the cases that the selects of the
  barrier have taken so far, and the number of values that sit in the buffer of each step's
  completion channel. The error channel is made without a buffer (line 86); the capacity of
  the completion channels is set outside \<^verbatim>\<open>builder.go\<close> and is the parameter \<open>cap\<close>.
\<close>

record worker =
  todo :: "event list"
  passed :: "event list"

record config =
  taken :: "select_outcome list"
  workers :: "worker list"
  buffered :: "string \<Rightarrow> nat"

definition startWorker :: "helpers \<Rightarrow> Builder \<Rightarrow> vertex_env \<Rightarrow> Node \<Rightarrow> Node \<Rightarrow> worker" where
  "startWorker h b env parent child =
     \<lparr>todo = snd (snd (processVertex h b env parent child)), passed = []\<rparr>"

definition advance :: "worker \<Rightarrow> worker" where
  "advance w = \<lparr>todo = tl (todo w), passed = passed w @ [hd (todo w)]\<rparr>"

text \<open>
  The moves of a run. \<open>Local i\<close>: worker \<open>i\<close> passes an event that is neither a channel
  operation nor a \<^verbatim>\<open>go\<close> statement. \<open>Spawn i env parent child\<close>: it passes a \<^verbatim>\<open>go\<close> statement,
  and the new worker will find \<open>env\<close>. \<open>PostError i\<close>: its send on the error channel meets
  the select of the barrier. \<open>Deliver i\<close>: its send on the completion channel meets the
  select that waits on that channel. \<open>Buffer i\<close>: its send goes into the buffer.
  \<open>Receive\<close>: the select takes a value from the buffer of the channel it waits on.
  \<open>Cancel err\<close>: the select takes \<^verbatim>\<open>ctx.Done()\<close>.
\<close>

datatype move =
    Local nat
  | Spawn nat vertex_env Node Node
  | PostError nat
  | Deliver nat
  | Buffer nat
  | Receive
  | Cancel error

definition passEvent :: "nat \<Rightarrow> config \<Rightarrow> config" where
  "passEvent i c = c\<lparr>workers := (workers c)[i := advance (workers c ! i)]\<rparr>"

definition nextEvent :: "nat \<Rightarrow> config \<Rightarrow> event option" where
  "nextEvent i c =
     (if i < length (workers c) then
        (case todo (workers c ! i) of [] \<Rightarrow> None | e # es \<Rightarrow> Some e)
      else None)"

definition awaited :: "string list \<Rightarrow> config \<Rightarrow> string option" where
  "awaited chans c =
     (if barrier chans (taken c) = Waiting \<and> length (taken c) < length chans
      then Some (chans ! length (taken c)) else None)"

fun isLocal :: "event \<Rightarrow> bool" where
  "isLocal (Go p c) = False"
| "isLocal (SendError err) = False"
| "isLocal (SendCompleted n) = False"
| "isLocal e = True"

fun makeMove :: "helpers \<Rightarrow> Builder \<Rightarrow> nat \<Rightarrow> string list \<Rightarrow> move \<Rightarrow> config \<Rightarrow> config option" where
  "makeMove h b cap chans (Local i) c =
     (case nextEvent i c of
        Some e \<Rightarrow> if isLocal e then Some (passEvent i c) else None
      | None \<Rightarrow> None)"
| "makeMove h b cap chans (Spawn i env parent child) c =
     (case nextEvent i c of
        Some (Go p n) \<Rightarrow>
          if Name parent = p \<and> Name child = n then
            Some ((passEvent i c)\<lparr>workers := workers (passEvent i c) @
                                              [startWorker h b env parent child]\<rparr>)
          else None
      | _ \<Rightarrow> None)"
| "makeMove h b cap chans (PostError i) c =
     (case nextEvent i c of
        Some (SendError err) \<Rightarrow>
          if barrier chans (taken c) = Waiting
          then Some ((passEvent i c)\<lparr>taken := taken c @ [StepError err]\<rparr>)
          else None
      | _ \<Rightarrow> None)"
| "makeMove h b cap chans (Deliver i) c =
     (case nextEvent i c of
        Some (SendCompleted n) \<Rightarrow>
          if awaited chans c = Some n
          then Some ((passEvent i c)\<lparr>taken := taken c @ [Completed]\<rparr>)
          else None
      | _ \<Rightarrow> None)"
| "makeMove h b cap chans (Buffer i) c =
     (case nextEvent i c of
        Some (SendCompleted n) \<Rightarrow>
          if buffered c n < cap
          then Some ((passEvent i c)\<lparr>buffered := (buffered c)(n := Suc (buffered c n))\<rparr>)
          else None
      | _ \<Rightarrow> None)"
| "makeMove h b cap chans Receive c =
     (case awaited chans c of
        Some n \<Rightarrow>
          if 0 < buffered c n
          then Some (c\<lparr>taken := taken c @ [Completed],
                       buffered := (buffered c)(n := buffered c n - 1)\<rparr>)
          else None
      | None \<Rightarrow> None)"
| "makeMove h b cap chans (Cancel err) c =
     (if barrier chans (taken c) = Waiting
      then Some (c\<lparr>taken := taken c @ [CtxDone err]\<rparr>)
      else None)"

fun run :: "helpers \<Rightarrow> Builder \<Rightarrow> nat \<Rightarrow> string list \<Rightarrow> move list \<Rightarrow> config \<Rightarrow> config option" where
  "run h b cap chans [] c = Some c"
| "run h b cap chans (m # ms) c =
     (case makeMove h b cap chans m c of
        None \<Rightarrow> None
      | Some c' \<Rightarrow> run h b cap chans ms c')"

text \<open>
  The completion signals that the selects of the barrier receive in a run, in the order in
  which they are received: a move \<open>Deliver i\<close> hands over the signal that worker \<open>i\<close> sends,
  a move \<open>Receive\<close> the one that sits in the buffer of the awaited channel.
\<close>

fun handedOver :: "string list \<Rightarrow> move \<Rightarrow> config \<Rightarrow> string list" where
  "handedOver chans (Deliver i) c =
     (case nextEvent i c of Some (SendCompleted n) \<Rightarrow> [n] | _ \<Rightarrow> [])"
| "handedOver chans Receive c = (case awaited chans c of Some n \<Rightarrow> [n] | None \<Rightarrow> [])"
| "handedOver chans m c = []"

fun deliveries ::
  "helpers \<Rightarrow> Builder \<Rightarrow> nat \<Rightarrow> string list \<Rightarrow> move list \<Rightarrow> config \<Rightarrow> string list" where
  "deliveries h b cap chans [] c = []"
| "deliveries h b cap chans (m # ms) c =
     (case makeMove h b cap chans m c of
        None \<Rightarrow> []
      | Some c' \<Rightarrow> handedOver chans m c @ deliveries h b cap chans ms c')"

text \<open>
  The configuration in which \<^verbatim>\<open>RunTask\<close> enters the barrier: one worker for each child of
  the root (lines 145 to 147), where \<open>envs ! i\<close> is what the \<open>i\<close>-th of them will find.
\<close>

definition startTask :: "helpers \<Rightarrow> Builder \<Rightarrow> Task \<Rightarrow> vertex_env list \<Rightarrow> config" where
  "startTask h b task envs =
     \<lparr>taken = [],
      workers = map (\<lambda>i. startWorker h b (envs ! i) (Root task) (RootChildren task ! i))
                    [0..<length (RootChildren task)],
      buffered = (\<lambda>n. 0)\<rparr>"


subsection \<open>Values for the examples\<close>

text \<open>
  A step with the zero value of Go in every field, and a choice of the helper functions: a
  Linux host, arguments \<^verbatim>\<open>docker run --name <id> <cmd>\<close>, local build contexts, no build
  cache.
\<close>

definition zeroStep :: Step where
  "zeroStep =
     \<lparr>ID = [], Cmd = [], Build = [], Push = [], Pull = False, EntryPoint = [],
      WorkingDirectory = [], Isolation = [], Timeout = 0, StartDelay = 0, Retries = 0,
      RetryOnErrors = [], RetryDelayInSeconds = 0, Repeat = 0, CmdDownloadRetries = 0,
      CmdDownloadRetryDelayInSeconds = 0, IgnoreErrors = False, UsesBuildkit = False,
      Tags = [], BuildArgs = [], StepStatus = Skipped, ImageDependencies = []\<rparr>"

definition exampleHelpers :: helpers where
  "exampleHelpers =
     \<lparr>GOOS = ''linux'', WindowsOS = ''windows'', LinuxOS = ''linux'',
      WindowServerCore2019Image = ''mcr.microsoft.com/windows/servercore:ltsc2019'',
      DockerSocketVolumeMapping = ''/var/run/docker.sock:/var/run/docker.sock'',
      buildkitdContainerName = ''buildkitd'',
      buildkitdContainerInitRetries = 3,
      buildkitdContainerInitRetryDelay = 5,
      buildkitdContainerInitRepeat = 0,
      UsingRegistryCreds = (\<lambda>task. RegistryLoginCredentials task \<noteq> []),
      getDockerRunArgs = (\<lambda>volName containerName cmd. [''docker'', ''run'', ''--name'', containerName, cmd]),
      getDockerRunArgsForStep =
        (\<lambda>volName workDir step entryPoint cmd. [''docker'', ''run'', ''--name'', ID step, cmd]),
      parseDockerBuildCmd = (\<lambda>build. (''Dockerfile'', [], ''.'')),
      IsLocalContext = (\<lambda>context. True),
      IsSourceControlURL = (\<lambda>context. False),
      getContextFromGitURL = (\<lambda>context. []),
      replacePositionalContext = (\<lambda>build context. build),
      UpdateBuildStepWithDefaults = (\<lambda>step. step),
      UseBuildCacheForBuildStep = (\<lambda>step. False),
      ContainsImageDependency = (\<lambda>step image. False)\<rparr>"

definition exampleBuilder :: Builder where
  "exampleBuilder = \<lparr>workspaceDir = ''/workspace'', debug = False\<rparr>"

definition allFine :: step_env where
  "allFine = \<lparr>pullResult = None, scrapeResult = Inr [], pushResult = None, runResult = None\<rparr>"

definition cmdStep :: "string \<Rightarrow> string \<Rightarrow> Step" where
  "cmdStep name cmd = zeroStep\<lparr>ID := name, Cmd := cmd\<rparr>"

definition cmdNode :: "string \<Rightarrow> string \<Rightarrow> Node" where
  "cmdNode name cmd = \<lparr>Name = name, Value = cmdStep name cmd\<rparr>"

definition rootNode :: Node where
  "rootNode = \<lparr>Name = ''root'', Value = zeroStep\<rparr>"

text \<open>\<open>precedes x y xs\<close>: \<open>y\<close> occurs in \<open>xs\<close> after the first occurrence of \<open>x\<close>.\<close>

definition precedes :: "'a \<Rightarrow> 'a \<Rightarrow> 'a list \<Rightarrow> bool" where
  "precedes x y xs = (y \<in> set (drop 1 (dropWhile (\<lambda>e. e \<noteq> x) xs)))"

text \<open>
  The reading of the specification, for comparison with \<open>runStep\<close>: an invocation of the
  container engine goes through \<^verbatim>\<open>RunRepeatWithRetries\<close> with the step's \<open>Retries\<close>,
  \<open>RetryOnErrors\<close>, \<open>RetryDelayInSeconds\<close> and \<open>Repeat\<close>.
\<close>

fun followsRetryPolicy :: "Step \<Rightarrow> event \<Rightarrow> bool" where
  "followsRetryPolicy step (ProcRunRepeatWithRetries args retries patterns delay name repeat) =
     (retries = Retries step \<and> patterns = RetryOnErrors step \<and>
      delay = RetryDelayInSeconds step \<and> repeat = Repeat step)"
| "followsRetryPolicy step (ProcRunWithRetries args retries patterns delay name) = False"
| "followsRetryPolicy step (ProcRun args) = False"
| "followsRetryPolicy step e = True"

fun isRunRepeat :: "event \<Rightarrow> bool" where
  "isRunRepeat (ProcRunRepeatWithRetries args retries patterns delay name repeat) = True"
| "isRunRepeat e = False"


text \<open>The events that only \<^verbatim>\<open>processVertex\<close> itself produces, not the collaborators.\<close>

fun isWorkerOp :: "event \<Rightarrow> bool" where
  "isWorkerOp (Log f args) = True"
| "isWorkerOp (SetStatus n s) = True"
| "isWorkerOp (Go p c) = True"
| "isWorkerOp (SendError err) = True"
| "isWorkerOp (SendCompleted n) = True"
| "isWorkerOp e = False"


text \<open>
  For the statements about \<open>runStep\<close>: the events before the step's kind is looked at (the
  start delay and the explicit pull of a command step), and the condition under which
  \<open>runStep\<close> gets as far as the step's own command.
\<close>

definition startEvents :: "helpers \<Rightarrow> Step \<Rightarrow> event list" where
  "startEvents h step =
     (if 0 < StartDelay step then [Sleep (StartDelay step)] else []) @
     (if IsCmdStep step \<and> Pull step
      then [ProcRunWithRetries (pullArgs h (Cmd step)) (CmdDownloadRetries step) []
              (CmdDownloadRetryDelayInSeconds step) []]
      else [])"

definition reachesCommand :: "step_env \<Rightarrow> Step \<Rightarrow> bool" where
  "reachesCommand env step =
     (\<not> (IsCmdStep step \<and> Pull step \<and> pullResult env \<noteq> None) \<and>
      (if IsBuildStep step then isl (scrapeResult env) = False else \<not> IsPushStep step))"

text \<open>Workers for the examples.\<close>

definition succeeds :: vertex_env where
  "succeeds =
     \<lparr>removeEdgeResult = None, degree = 0,
      children = [cmdNode ''b'' ''alpine'', cmdNode ''c'' ''alpine''],
      onceDone = False, stepEnv = allFine\<rparr>"

definition fails :: vertex_env where
  "fails = succeeds\<lparr>stepEnv := allFine\<lparr>runResult := Some ''exit status 1''\<rparr>\<rparr>"

definition ignoringNode :: Node where
  "ignoringNode = \<lparr>Name = ''a'', Value = (cmdStep ''a'' ''bash false'')\<lparr>IgnoreErrors := True\<rparr>\<rparr>"

definition pullingStep :: Step where
  "pullingStep = (cmdStep ''a'' ''bash echo hi'')\<lparr>Pull := True, Retries := 3, CmdDownloadRetries := 1\<rparr>"


fun isLog :: "event \<Rightarrow> bool" where
  "isLog (Log f args) = True"
| "isLog e = False"

text \<open>
  An environment in which every collaborator succeeds and no select has fired yet, and a
  task that asks for the build cache: one secret volume and one command step \<^verbatim>\<open>a\<close> under the
  root.
\<close>

definition quietEnv :: run_env where
  "quietEnv =
     \<lparr>networkCreateResult = (\<lambda>i. ([], None)), setupConfigResult = None,
      loginResult = (\<lambda>i. None), buildkitResult = None,
      createSecretFilesResult = (\<lambda>i. None), populateSecretVolumeResult = (\<lambda>i. None),
      selects = [], workersLeave = (\<lambda>steps. steps),
      populateDigestsResult = (\<lambda>i. None), marshalResult = None\<rparr>"

definition cacheTask :: Task where
  "cacheTask =
     \<lparr>Networks = [], Volumes = [\<lparr>VolName = ''secrets'', Secret = Some [(''key'', ''dmFsdWU='')]\<rparr>],
      Steps = [cmdStep ''a'' ''bash echo hi''], RegistryLoginCredentials = [],
      InitBuildkitContainer = True, Nodes = [cmdNode ''a'' ''bash echo hi''], Root = rootNode,
      RootChildren = [cmdNode ''a'' ''bash echo hi'']\<rparr>"


text \<open>
  Events that are neither a log line nor a call of \<^verbatim>\<open>RunRepeatWithRetries\<close>.
\<close>

definition quiet :: "event \<Rightarrow> bool" where
  "quiet e = (\<not> isLog e \<and> \<not> isRunRepeat e)"


text \<open>
  For the statements about a run of the goroutines. A completion send is \<open>licensed\<close> by the
  events before it when the status of its step was set to \<open>Successful\<close> or an error was sent
  on the error channel; a trace is \<open>orderly\<close> when each of its completion sends is licensed.
\<close>

fun isSendError :: "event \<Rightarrow> bool" where
  "isSendError (SendError err) = True"
| "isSendError e = False"

fun isCompletion :: "event \<Rightarrow> bool" where
  "isCompletion (SendCompleted n) = True"
| "isCompletion e = False"

fun licensed :: "event list \<Rightarrow> event \<Rightarrow> bool" where
  "licensed seen (SendCompleted n) =
     (SetStatus n Successful \<in> set seen \<or> list_ex isSendError seen)"
| "licensed seen e = True"

fun orderly :: "event list \<Rightarrow> event list \<Rightarrow> bool" where
  "orderly seen [] = True"
| "orderly seen (e # es) = (licensed seen e \<and> orderly (seen @ [e]) es)"

text \<open>
  \<open>sent c n\<close>: some worker has passed a send on the completion channel of step \<open>n\<close>.
  \<open>errorPosted c\<close>: some worker has passed a send on the error channel.
  \<open>received chans c\<close>: the channels on which the barrier has received so far.
\<close>

definition sent :: "config \<Rightarrow> string \<Rightarrow> bool" where
  "sent c n = list_ex (\<lambda>w. SendCompleted n \<in> set (passed w)) (workers c)"

definition errorPosted :: "config \<Rightarrow> bool" where
  "errorPosted c = list_ex (\<lambda>w. list_ex isSendError (passed w)) (workers c)"

definition received :: "string list \<Rightarrow> config \<Rightarrow> string list" where
  "received chans c = take (length (filter (\<lambda>s. s = Completed) (taken c))) chans"

definition succeeded :: "config \<Rightarrow> string \<Rightarrow> bool" where
  "succeeded c n =
     list_ex (\<lambda>w. SendCompleted n \<in> set (passed w) \<and> SetStatus n Successful \<in> set (passed w) \<and>
                  \<not> list_ex isSendError (passed w)) (workers c)"


text \<open>
  What holds in every configuration of a run: each worker's trace is orderly; an error was
  handed over only to a barrier that has returned it; and a value that sits in a buffer or
  was received by the barrier was sent by a worker.
\<close>

definition steady :: "string list \<Rightarrow> config \<Rightarrow> bool" where
  "steady chans c =
     (list_all (\<lambda>w. orderly [] (passed w @ todo w)) (workers c) \<and>
      (if errorPosted c then barrier chans (taken c) \<noteq> Waiting \<and>
                             barrier chans (taken c) \<noteq> AllCompleted
       else True) \<and>
      (\<forall>n. (if 0 < buffered c n \<or> n \<in> set (received chans c) then sent c n else True)))"


text \<open>\<^verbatim>\<open>RunTask\<close> gets as far as the barrier: lines 52 to 83 and the volumes succeed.\<close>

definition entersBarrier :: "helpers \<Rightarrow> run_env \<Rightarrow> Task \<Rightarrow> bool" where
  "entersBarrier h env task =
     (fst (prepare h env task) = None \<and> fst (prepareVolumes env 0 (Volumes task)) = None)"

text \<open>
  A task of three command steps for the examples: \<^verbatim>\<open>a\<close> under the root, \<^verbatim>\<open>b\<close> and \<^verbatim>\<open>c\<close>
  after \<^verbatim>\<open>a\<close>; and a worker that succeeds and finds no children.
\<close>

definition fanTask :: Task where
  "fanTask =
     \<lparr>Networks = [], Volumes = [],
      Steps = [cmdStep ''a'' ''bash false'', cmdStep ''b'' ''alpine'', cmdStep ''c'' ''alpine''],
      RegistryLoginCredentials = [], InitBuildkitContainer = False,
      Nodes = [cmdNode ''a'' ''bash false'', cmdNode ''b'' ''alpine'', cmdNode ''c'' ''alpine''],
      Root = rootNode, RootChildren = [cmdNode ''a'' ''bash false'']\<rparr>"

definition succeedsAlone :: vertex_env where
  "succeedsAlone = succeeds\<lparr>children := []\<rparr>"



text \<open>
  A task whose step \<^verbatim>\<open>a\<close> ignores its errors and is followed by \<^verbatim>\<open>b\<close>, and a run of it on
  completion channels without buffer: \<^verbatim>\<open>a\<close> fails, its worker logs the error, sets the status,
  starts the worker of \<^verbatim>\<open>b\<close> and hands its signal to the barrier; then \<^verbatim>\<open>b\<close> succeeds.
\<close>

definition ignoredTask :: Task where
  "ignoredTask =
     \<lparr>Networks = [], Volumes = [], Steps = [Value ignoringNode, cmdStep ''b'' ''alpine''],
      RegistryLoginCredentials = [], InitBuildkitContainer = False,
      Nodes = [ignoringNode, cmdNode ''b'' ''alpine''], Root = rootNode,
      RootChildren = [ignoringNode]\<rparr>"

definition ignoredMoves :: "move list" where
  "ignoredMoves =
     [Local 0, Local 0, Local 0, Spawn 0 succeedsAlone ignoringNode (cmdNode ''b'' ''alpine''),
      Deliver 0, Local 1, Local 1, Deliver 1]"

definition ignoredStart :: config where
  "ignoredStart =
     startTask exampleHelpers exampleBuilder ignoredTask
       [fails\<lparr>children := [cmdNode ''b'' ''alpine'']\<rparr>]"

definition ignoredRun :: "config option" where
  "ignoredRun =
     run exampleHelpers exampleBuilder 0 (completedChans ignoredTask) ignoredMoves ignoredStart"

text \<open>
  A task in which \<^verbatim>\<open>d\<close> comes after both \<^verbatim>\<open>b\<close> and \<^verbatim>\<open>c\<close>, the two children of the root. The
  worker that \<^verbatim>\<open>b\<close> starts for \<^verbatim>\<open>d\<close> and the one that \<^verbatim>\<open>c\<close> starts for \<^verbatim>\<open>d\<close> each remove
  their edge (line 226) and read the degree afterwards (line 232), in two separate calls.
  In the run below both removals come before both reads, so both workers read zero and
  both execute \<^verbatim>\<open>d\<close>: the first execution succeeds and its signal is the last one the
  barrier waits for; the second fails, for instance because the container name
  \<^verbatim>\<open>d\<close> is taken, after the barrier has been passed.
\<close>

definition diamondTask :: Task where
  "diamondTask =
     \<lparr>Networks = [], Volumes = [],
      Steps = [cmdStep ''b'' ''alpine'', cmdStep ''c'' ''alpine'', cmdStep ''d'' ''alpine''],
      RegistryLoginCredentials = [], InitBuildkitContainer = False,
      Nodes = [cmdNode ''b'' ''alpine'', cmdNode ''c'' ''alpine'', cmdNode ''d'' ''alpine''],
      Root = rootNode,
      RootChildren = [cmdNode ''b'' ''alpine'', cmdNode ''c'' ''alpine'']\<rparr>"

definition beforeD :: vertex_env where
  "beforeD = succeeds\<lparr>children := [cmdNode ''d'' ''alpine'']\<rparr>"

definition failsAlone :: vertex_env where
  "failsAlone = fails\<lparr>children := []\<rparr>"

definition raceMoves :: "move list" where
  "raceMoves =
     [Local 0, Local 0, Spawn 0 succeedsAlone (cmdNode ''b'' ''alpine'') (cmdNode ''d'' ''alpine''),
      Deliver 0,
      Local 1, Local 1, Spawn 1 failsAlone (cmdNode ''c'' ''alpine'') (cmdNode ''d'' ''alpine''),
      Deliver 1,
      Local 2, Local 2, Deliver 2,
      Local 3, Local 3]"

definition raceRun :: "config option" where
  "raceRun =
     run exampleHelpers exampleBuilder 0 (completedChans diamondTask) raceMoves
       (startTask exampleHelpers exampleBuilder diamondTask [beforeD, beforeD])"

text \<open>
  A task of two steps under the root, both of which fail: the barrier takes the error of
  \<^verbatim>\<open>a\<close>, and the worker of \<^verbatim>\<open>b\<close> arrives at its send on the error channel afterwards.
\<close>

definition pairTask :: Task where
  "pairTask =
     \<lparr>Networks = [], Volumes = [], Steps = [cmdStep ''a'' ''bash false'', cmdStep ''b'' ''bash false''],
      RegistryLoginCredentials = [], InitBuildkitContainer = False,
      Nodes = [cmdNode ''a'' ''bash false'', cmdNode ''b'' ''bash false''], Root = rootNode,
      RootChildren = [cmdNode ''a'' ''bash false'', cmdNode ''b'' ''bash false'']\<rparr>"

definition bothFailRun :: "config option" where
  "bothFailRun =
     run exampleHelpers exampleBuilder 0 (completedChans pairTask)
       [Local 0, Local 0, PostError 0, Local 1, Local 1]
       (startTask exampleHelpers exampleBuilder pairTask [failsAlone, failsAlone])"



section \<open>Properties of package util\<close>

subsection \<open>Prefixes\<close>


lemma HasPrefix_append: "HasPrefix (p @ s) p"
  by (simp add: HasPrefix_def)

lemma HasPrefix_append_left: "HasPrefix s (p @ q) \<Longrightarrow> HasPrefix s p"
proof -
  assume h: "HasPrefix s (p @ q)"
  then have "take (length (p @ q)) s = p @ q" by (simp add: HasPrefix_def)
  then have "take (length p) (take (length (p @ q)) s) = take (length p) (p @ q)" by simp
  then have "take (length p) s = p" by (simp add: min_def)
  moreover from h have "length p \<le> length s" by (simp add: HasPrefix_def)
  ultimately show ?thesis by (simp add: HasPrefix_def)
qed

lemma isTagFlag_no_slash: "isTagFlag f \<Longrightarrow> CHR ''/'' \<notin> set f"
  by (auto simp: isTagFlag_def)

lemma PrefixRegistryToImageName_flag:
  "isTagFlag (PrefixRegistryToImageName r x) \<Longrightarrow> PrefixRegistryToImageName r x = x"
proof (rule ccontr)
  assume fl: "isTagFlag (PrefixRegistryToImageName r x)"
  assume "PrefixRegistryToImageName r x \<noteq> x"
  then have "PrefixRegistryToImageName r x = r @ ''/'' @ x"
    by (simp add: PrefixRegistryToImageName_def split: if_splits)
  with fl isTagFlag_no_slash [of "r @ ''/'' @ x"] show False by simp
qed

lemma PrefixTags_loop_done: "\<not> i < length fs \<Longrightarrow> PrefixTags_loop r i fs tags = (fs, tags)"
  by (subst PrefixTags_loop.simps) simp

lemma PrefixTags_loop_flag: "i < length fs \<Longrightarrow> isTagFlag (fs ! (i - 1)) \<Longrightarrow>
  PrefixTags_loop r i fs tags =
    PrefixTags_loop r (i + 1) (fs[i := PrefixRegistryToImageName r (fs ! i)])
      (tags @ [PrefixRegistryToImageName r (fs ! i)])"
  by (subst PrefixTags_loop.simps) (simp add: Let_def)

lemma PrefixTags_loop_noflag: "i < length fs \<Longrightarrow> \<not> isTagFlag (fs ! (i - 1)) \<Longrightarrow>
  PrefixTags_loop r i fs tags = PrefixTags_loop r (i + 1) fs tags"
  by (subst PrefixTags_loop.simps) simp

lemma PrefixTags_loop_length: "length (fst (PrefixTags_loop r i fs tags)) = length fs"
proof (induction r i fs tags rule: PrefixTags_loop.induct)
  case (1 r i fs tags)
  show ?case
  proof (cases "i < length fs")
    case False then show ?thesis by (simp add: PrefixTags_loop_done)
  next
    case True
    show ?thesis
    proof (cases "isTagFlag (fs ! (i - 1))")
      case True
      with \<open>i < length fs\<close> "1.IH"(1) [OF \<open>i < length fs\<close> True refl] show ?thesis
        by (simp add: PrefixTags_loop_flag)
    next
      case False
      with \<open>i < length fs\<close> "1.IH"(2) [OF \<open>i < length fs\<close> False] show ?thesis
        by (simp add: PrefixTags_loop_noflag)
    qed
  qed
qed

lemma PrefixTags_loop_below: "j < i \<Longrightarrow> fst (PrefixTags_loop r i fs tags) ! j = fs ! j"
proof (induction r i fs tags rule: PrefixTags_loop.induct)
  case (1 r i fs tags)
  show ?case
  proof (cases "i < length fs")
    case False then show ?thesis by (simp add: PrefixTags_loop_done)
  next
    case il: True
    show ?thesis
    proof (cases "isTagFlag (fs ! (i - 1))")
      case True
      with il "1.IH"(1) [OF il True refl] "1.prems" show ?thesis
        by (simp add: PrefixTags_loop_flag)
    next
      case False
      with il "1.IH"(2) [OF il False] "1.prems" show ?thesis
        by (simp add: PrefixTags_loop_noflag)
    qed
  qed
qed

lemma PrefixTags_loop_from:
  "1 \<le> i \<Longrightarrow> i \<le> j \<Longrightarrow> j < length fs \<Longrightarrow>
   fst (PrefixTags_loop r i fs tags) ! j =
     (if isTagFlag (fst (PrefixTags_loop r i fs tags) ! (j - 1))
      then PrefixRegistryToImageName r (fs ! j) else fs ! j)"
proof (induction r i fs tags rule: PrefixTags_loop.induct)
  case (1 r i fs tags)
  from "1.prems" have il: "i < length fs" by simp
  show ?case
  proof (cases "isTagFlag (fs ! (i - 1))")
    case fl: True
    let ?v = "PrefixRegistryToImageName r (fs ! i)"
    have eq: "PrefixTags_loop r i fs tags = PrefixTags_loop r (i + 1) (fs[i := ?v]) (tags @ [?v])"
      using il fl by (rule PrefixTags_loop_flag)
    show ?thesis
    proof (cases "j = i")
      case True
      have "fst (PrefixTags_loop r (i + 1) (fs[i := ?v]) (tags @ [?v])) ! i = (fs[i := ?v]) ! i"
        by (rule PrefixTags_loop_below) simp
      moreover have "fst (PrefixTags_loop r (i + 1) (fs[i := ?v]) (tags @ [?v])) ! (i - 1) = (fs[i := ?v]) ! (i - 1)"
        by (rule PrefixTags_loop_below) (use "1.prems" in simp)
      ultimately show ?thesis using eq True il fl "1.prems" by simp
    next
      case False
      with "1.prems" have "i + 1 \<le> j" by simp
      from "1.IH"(1) [OF il fl refl _ this] "1.prems" False show ?thesis
        using eq by simp
    qed
  next
    case nf: False
    have eq: "PrefixTags_loop r i fs tags = PrefixTags_loop r (i + 1) fs tags"
      using il nf by (rule PrefixTags_loop_noflag)
    show ?thesis
    proof (cases "j = i")
      case True
      have "fst (PrefixTags_loop r (i + 1) fs tags) ! i = fs ! i"
        by (rule PrefixTags_loop_below) simp
      moreover have "fst (PrefixTags_loop r (i + 1) fs tags) ! (i - 1) = fs ! (i - 1)"
        by (rule PrefixTags_loop_below) (use "1.prems" in simp)
      ultimately show ?thesis using eq True nf by simp
    next
      case False
      with "1.prems" have "i + 1 \<le> j" by simp
      from "1.IH"(2) [OF il nf _ this] "1.prems" show ?thesis
        using eq by simp
    qed
  qed
qed

lemma PrefixTags_loop_tags:
  "1 \<le> i \<Longrightarrow>
   snd (PrefixTags_loop r i fs tags) =
     tags @ map ((!) (fst (PrefixTags_loop r i fs tags)))
              (filter (\<lambda>j. isTagFlag (fst (PrefixTags_loop r i fs tags) ! (j - 1))) [i..<length fs])"
proof (induction r i fs tags rule: PrefixTags_loop.induct)
  case (1 r i fs tags)
  show ?case
  proof (cases "i < length fs")
    case False then show ?thesis by (simp add: PrefixTags_loop_done)
  next
    case il: True
    then have up: "[i..<length fs] = i # [i + 1..<length fs]"
      by (simp add: upt_conv_Cons)
    show ?thesis
    proof (cases "isTagFlag (fs ! (i - 1))")
      case fl: True
      let ?v = "PrefixRegistryToImageName r (fs ! i)"
      let ?res = "PrefixTags_loop r (i + 1) (fs[i := ?v]) (tags @ [?v])"
      have eq: "PrefixTags_loop r i fs tags = ?res"
        using il fl by (rule PrefixTags_loop_flag)
      have a: "fst ?res ! i = ?v"
        using PrefixTags_loop_below [of i "i + 1" r "fs[i := ?v]" "tags @ [?v]"] il by simp
      have b: "fst ?res ! (i - 1) = fs ! (i - 1)"
        using PrefixTags_loop_below [of "i - 1" "i + 1" r "fs[i := ?v]" "tags @ [?v]"] "1.prems" by simp
      from "1.IH"(1) [OF il fl refl] have "snd ?res = (tags @ [?v]) @ map ((!) (fst ?res))
              (filter (\<lambda>j. isTagFlag (fst ?res ! (j - 1))) [i + 1..<length fs])"
        by simp
      then show ?thesis unfolding eq up using a b fl by simp
    next
      case nf: False
      let ?res = "PrefixTags_loop r (i + 1) fs tags"
      have eq: "PrefixTags_loop r i fs tags = ?res"
        using il nf by (rule PrefixTags_loop_noflag)
      have b: "fst ?res ! (i - 1) = fs ! (i - 1)"
        using PrefixTags_loop_below [of "i - 1" "i + 1" r fs tags] "1.prems" by simp
      from "1.IH"(2) [OF il nf] have "snd ?res = tags @ map ((!) (fst ?res))
              (filter (\<lambda>j. isTagFlag (fst ?res ! (j - 1))) [i + 1..<length fs])"
        by simp
      then show ?thesis unfolding eq up using b nf by simp
    qed
  qed
qed


text \<open>
  Claim C8. For every registry \<open>r\<close> and image \<open>img\<close>, \<open>PrefixRegistryToImageName r img\<close>
  is idempotent (applying it twice equals applying it once), and it returns \<open>img\<close>
  unchanged when \<open>img\<close> starts with \<^verbatim>\<open>r/\<close> or with \<^verbatim>\<open>library/\<close>.
\<close>

theorem PrefixRegistryToImageName_idempotent_noop:
  "PrefixRegistryToImageName r (PrefixRegistryToImageName r img) = PrefixRegistryToImageName r img
   \<and> (HasPrefix img (r @ ''/'') \<or> HasPrefix img ''library/''
        \<longrightarrow> PrefixRegistryToImageName r img = img)"
proof
  show "PrefixRegistryToImageName r (PrefixRegistryToImageName r img) = PrefixRegistryToImageName r img"
    by (simp add: PrefixRegistryToImageName_def HasPrefix_append)
  show "HasPrefix img (r @ ''/'') \<or> HasPrefix img ''library/''
        \<longrightarrow> PrefixRegistryToImageName r img = img"
    using HasPrefix_append_left [of img r "''/''"]
    by (auto simp: PrefixRegistryToImageName_def)
qed

theorem PrefixRegistryToImageName_idempotent_noop_witness:
  "HasPrefix ''myreg.io/app:v1'' (''myreg.io'' @ ''/'')
   \<and> PrefixRegistryToImageName ''myreg.io'' ''myreg.io/app:v1'' = ''myreg.io/app:v1''
   \<and> HasPrefix ''library/ubuntu'' ''library/''
   \<and> PrefixRegistryToImageName ''myreg.io'' ''library/ubuntu'' = ''library/ubuntu''
   \<and> PrefixRegistryToImageName ''myreg.io'' (PrefixRegistryToImageName ''myreg.io'' ''app:v1'')
       = ''myreg.io/app:v1''"
  using PrefixRegistryToImageName_idempotent_noop [of "''myreg.io''" "''myreg.io/app:v1''"]
    PrefixRegistryToImageName_idempotent_noop [of "''myreg.io''" "''library/ubuntu''"]
    PrefixRegistryToImageName_idempotent_noop [of "''myreg.io''" "''app:v1''"]
  by (simp add: HasPrefix_def PrefixRegistryToImageName_def)

text \<open>
  Claim C10. \<open>PrefixRegistryToImageName r img\<close> returns \<open>img\<close> unchanged whenever \<open>img\<close>
  has \<open>r\<close> as a plain string prefix; no \<^verbatim>\<open>/\<close> separator is required. With registry
  \<^verbatim>\<open>reg\<close>, the image \<^verbatim>\<open>registry.io/app\<close> is left unprefixed.
\<close>

theorem PrefixRegistryToImageName_plain_prefix:
  "HasPrefix img r \<Longrightarrow> PrefixRegistryToImageName r img = img"
  by (simp add: PrefixRegistryToImageName_def)

theorem PrefixRegistryToImageName_plain_prefix_witness:
  "HasPrefix ''registry.io/app'' ''reg'' \<and> \<not> HasPrefix ''registry.io/app'' ''reg/''
   \<and> PrefixRegistryToImageName ''reg'' ''registry.io/app'' = ''registry.io/app''"
proof -
  have h: "HasPrefix ''registry.io/app'' ''reg''" by (simp add: HasPrefix_def)
  show ?thesis
    using h PrefixRegistryToImageName_plain_prefix [OF h]
    by (simp add: HasPrefix_def)
qed


subsection \<open>Tags of a build command\<close>

lemma PrefixRegistryToImageName_cases:
  "PrefixRegistryToImageName r x =
     (if HasPrefix x r \<or> HasPrefix x ''library/'' then x else r @ ''/'' @ x)"
  by (auto simp: PrefixRegistryToImageName_def HasPrefix_def)

lemma PrefixTags_loop_flag_static:
  assumes "j < length fs"
  shows "isTagFlag (fst (PrefixTags_loop r 1 fs tags) ! j) \<Longrightarrow> isTagFlag (fs ! j)"
proof (cases "j = 0")
  case True
  then show "isTagFlag (fst (PrefixTags_loop r 1 fs tags) ! j) \<Longrightarrow> isTagFlag (fs ! j)"
    using PrefixTags_loop_below [of 0 1 r fs tags] by simp
next
  case False
  assume fl: "isTagFlag (fst (PrefixTags_loop r 1 fs tags) ! j)"
  from False assms have eq: "fst (PrefixTags_loop r 1 fs tags) ! j =
     (if isTagFlag (fst (PrefixTags_loop r 1 fs tags) ! (j - 1))
      then PrefixRegistryToImageName r (fs ! j) else fs ! j)"
    by (intro PrefixTags_loop_from) simp_all
  show "isTagFlag (fs ! j)"
  proof (cases "isTagFlag (fst (PrefixTags_loop r 1 fs tags) ! (j - 1))")
    case True
    with eq fl PrefixRegistryToImageName_flag [of r "fs ! j"] show ?thesis by simp
  next
    case False
    with eq fl show ?thesis by simp
  qed
qed

lemma PrefixTags_loop_flag_nochain:
  assumes nochain: "\<forall>i<length fs. 0 < i \<and> isTagFlag (fs ! (i - 1)) \<longrightarrow> \<not> isTagFlag (fs ! i)"
    and "j < length fs"
  shows "isTagFlag (fst (PrefixTags_loop r 1 fs tags) ! j) = isTagFlag (fs ! j)"
proof (cases "j = 0")
  case True
  then show ?thesis using PrefixTags_loop_below [of 0 1 r fs tags] by simp
next
  case False
  with assms have eq: "fst (PrefixTags_loop r 1 fs tags) ! j =
     (if isTagFlag (fst (PrefixTags_loop r 1 fs tags) ! (j - 1))
      then PrefixRegistryToImageName r (fs ! j) else fs ! j)"
    by (intro PrefixTags_loop_from) simp_all
  show ?thesis
  proof (cases "isTagFlag (fst (PrefixTags_loop r 1 fs tags) ! (j - 1))")
    case True
    from assms(2) have "j - 1 < length fs" by simp
    from PrefixTags_loop_flag_static [OF this True] have "isTagFlag (fs ! (j - 1))" .
    with nochain assms(2) False have nf: "\<not> isTagFlag (fs ! j)" by simp
    then have "\<not> isTagFlag (PrefixRegistryToImageName r (fs ! j))"
      using PrefixRegistryToImageName_flag [of r "fs ! j"] by auto
    with eq True nf show ?thesis by simp
  next
    case False
    with eq show ?thesis by simp
  qed
qed

text \<open>
  The pass of \<open>PrefixTags\<close> over the fields, for every command: a field is replaced when
  the field before it, as it stands at that point of the pass, is a flag. A field that
  counts as a flag during the pass is a flag of the command; when no flag of the command
  directly follows another one, the two notions agree.
\<close>

lemma PrefixTags_pass:
  assumes run: "PrefixTags_loop registry 1 (Fields cmd) [] = (out, tags)"
  shows "PrefixTags cmd registry = (Join out '' '', tags)
    \<and> length out = length (Fields cmd)
    \<and> (\<forall>i<length out. out ! i =
          (if 0 < i \<and> isTagFlag (out ! (i - 1)) then
             (if HasPrefix (Fields cmd ! i) registry \<or> HasPrefix (Fields cmd ! i) ''library/''
              then Fields cmd ! i else registry @ ''/'' @ Fields cmd ! i)
           else Fields cmd ! i))
    \<and> tags = map ((!) out) (filter (\<lambda>i. isTagFlag (out ! (i - 1))) [1..<length out])
    \<and> (\<forall>i<length out. isTagFlag (out ! i) \<longrightarrow> isTagFlag (Fields cmd ! i))
    \<and> ((\<forall>i<length out. 0 < i \<and> isTagFlag (Fields cmd ! (i - 1)) \<longrightarrow> \<not> isTagFlag (Fields cmd ! i))
         \<longrightarrow> (\<forall>i<length out. isTagFlag (out ! i) = isTagFlag (Fields cmd ! i)))"
proof -
  let ?fs = "Fields cmd"
  from run have out: "out = fst (PrefixTags_loop registry 1 ?fs [])"
    and tags: "tags = snd (PrefixTags_loop registry 1 ?fs [])" by simp_all
  have len: "length out = length ?fs" unfolding out by (rule PrefixTags_loop_length)
  have c1: "PrefixTags cmd registry = (Join out '' '', tags)"
    using run by (simp add: PrefixTags_def)
  have c3: "\<forall>i<length out. out ! i =
          (if 0 < i \<and> isTagFlag (out ! (i - 1)) then
             (if HasPrefix (?fs ! i) registry \<or> HasPrefix (?fs ! i) ''library/''
              then ?fs ! i else registry @ ''/'' @ ?fs ! i)
           else ?fs ! i)"
  proof (intro allI impI)
    fix i assume il: "i < length out"
    show "out ! i =
          (if 0 < i \<and> isTagFlag (out ! (i - 1)) then
             (if HasPrefix (?fs ! i) registry \<or> HasPrefix (?fs ! i) ''library/''
              then ?fs ! i else registry @ ''/'' @ ?fs ! i)
           else ?fs ! i)"
    proof (cases "i = 0")
      case True
      then show ?thesis unfolding out using PrefixTags_loop_below [of 0 1 registry ?fs "[]"] by simp
    next
      case False
      with il len have "out ! i = (if isTagFlag (out ! (i - 1))
          then PrefixRegistryToImageName registry (?fs ! i) else ?fs ! i)"
        unfolding out by (intro PrefixTags_loop_from) simp_all
      with False show ?thesis by (simp add: PrefixRegistryToImageName_cases)
    qed
  qed
  have c4: "tags = map ((!) out) (filter (\<lambda>i. isTagFlag (out ! (i - 1))) [1..<length out])"
    using PrefixTags_loop_tags [of 1 registry ?fs "[]"] len unfolding out tags by simp
  have c5: "\<forall>i<length out. isTagFlag (out ! i) \<longrightarrow> isTagFlag (?fs ! i)"
    using PrefixTags_loop_flag_static [of _ ?fs registry "[]"] len unfolding out by simp
  have c6: "(\<forall>i<length out. 0 < i \<and> isTagFlag (?fs ! (i - 1)) \<longrightarrow> \<not> isTagFlag (?fs ! i))
         \<longrightarrow> (\<forall>i<length out. isTagFlag (out ! i) = isTagFlag (?fs ! i))"
    using PrefixTags_loop_flag_nochain [of ?fs _ registry "[]"] len unfolding out by simp
  from c1 len c3 c4 c5 c6 show ?thesis by blast
qed

lemma noFlagAfterFlag_nth:
  "noFlagAfterFlag fs \<Longrightarrow> 0 < i \<Longrightarrow> i < length fs \<Longrightarrow> isTagFlag (fs ! (i - 1)) \<Longrightarrow>
     \<not> isTagFlag (fs ! i)"
proof (induction fs arbitrary: i rule: noFlagAfterFlag.induct)
  case (1 x y zs)
  show ?case
  proof (cases "i = 1")
    case True
    with "1.prems" show ?thesis by simp
  next
    case False
    with "1.prems" have a: "0 < i - 1" and b: "i - 1 < length (y # zs)" by simp_all
    from "1.prems" have c: "noFlagAfterFlag (y # zs)" by simp
    from "1.prems" False have d: "isTagFlag ((y # zs) ! (i - 1 - 1))"
      by (cases i) (auto simp: nth_Cons split: nat.splits)
    from "1.IH" [OF c a b d] have "\<not> isTagFlag ((y # zs) ! (i - 1))" .
    with "1.prems" show ?thesis by (cases i) auto
  qed
qed simp_all

text \<open>
  Claim C7, as the code has it. For every registry and every command in which no \<^verbatim>\<open>-t\<close> or
  \<^verbatim>\<open>--tag\<close> field stands right after another one, \<open>PrefixTags\<close> replaces each field that
  stands right after a \<^verbatim>\<open>-t\<close> or \<^verbatim>\<open>--tag\<close> field by \<^verbatim>\<open>registry/field\<close>, unless the field
  already starts with the registry string (no \<^verbatim>\<open>/\<close> is needed; always so for the empty
  registry) or with \<^verbatim>\<open>library/\<close>; it keeps the other fields, joins the fields by single
  spaces, and returns the replaced fields in order of appearance.
\<close>

theorem PrefixTags_prefixes_tags:
  assumes "noFlagAfterFlag (Fields cmd)"
  shows "PrefixTags cmd registry =
           (Join (prefixedFields registry (Fields cmd)) '' '', prefixedTags registry (Fields cmd))"
proof -
  let ?fs = "Fields cmd"
  obtain out tags where run: "PrefixTags_loop registry 1 ?fs [] = (out, tags)"
    by (cases "PrefixTags_loop registry 1 ?fs []") auto
  note pass = PrefixTags_pass [OF run]
  from pass have res: "PrefixTags cmd registry = (Join out '' '', tags)" by (elim conjE)
  from pass have len: "length out = length ?fs" by (elim conjE)
  from pass have nth: "\<forall>i<length out. out ! i =
          (if 0 < i \<and> isTagFlag (out ! (i - 1)) then
             (if HasPrefix (?fs ! i) registry \<or> HasPrefix (?fs ! i) ''library/''
              then ?fs ! i else registry @ ''/'' @ ?fs ! i)
           else ?fs ! i)" by (elim conjE)
  from pass have tg: "tags = map ((!) out) (filter (\<lambda>i. isTagFlag (out ! (i - 1))) [1..<length out])"
    by (elim conjE)
  from pass have same0: "(\<forall>i<length out. 0 < i \<and> isTagFlag (?fs ! (i - 1)) \<longrightarrow> \<not> isTagFlag (?fs ! i))
         \<longrightarrow> (\<forall>i<length out. isTagFlag (out ! i) = isTagFlag (?fs ! i))" by (elim conjE)
  have "\<forall>i<length out. 0 < i \<and> isTagFlag (?fs ! (i - 1)) \<longrightarrow> \<not> isTagFlag (?fs ! i)"
    using noFlagAfterFlag_nth [OF assms] len by auto
  with same0 have same: "\<forall>i<length out. isTagFlag (out ! i) = isTagFlag (?fs ! i)" by simp
  have out: "out = prefixedFields registry ?fs"
  proof (rule nth_equalityI)
    show "length out = length (prefixedFields registry ?fs)"
      using len by (simp add: prefixedFields_def)
  next
    fix i assume il: "i < length out"
    then have "i - 1 < length out" by simp
    with same have fl: "isTagFlag (out ! (i - 1)) = isTagFlag (?fs ! (i - 1))" by blast
    from nth il have "out ! i =
          (if 0 < i \<and> isTagFlag (out ! (i - 1)) then
             (if HasPrefix (?fs ! i) registry \<or> HasPrefix (?fs ! i) ''library/''
              then ?fs ! i else registry @ ''/'' @ ?fs ! i)
           else ?fs ! i)" by blast
    also have "\<dots> = prefixedFields registry ?fs ! i"
      using il len fl by (simp add: prefixedFields_def)
    finally show "out ! i = prefixedFields registry ?fs ! i" .
  qed
  have "filter (\<lambda>i. isTagFlag (out ! (i - 1))) [1..<length out] =
        filter (\<lambda>i. isTagFlag (?fs ! (i - 1))) [1..<length ?fs]"
    unfolding len
  proof (rule filter_cong [OF refl])
    fix i assume "i \<in> set [1..<length ?fs]"
    then have "i - 1 < length out" using len by auto
    with same show "isTagFlag (out ! (i - 1)) = isTagFlag (?fs ! (i - 1))" by blast
  qed
  with tg out have "tags = prefixedTags registry ?fs" by (simp add: prefixedTags_def)
  with res out show ?thesis by simp
qed

theorem PrefixTags_prefixes_tags_witness:
  "noFlagAfterFlag (Fields ''build -t app --tag library/x -t r.io/y .'')
   \<and> Fields ''build -t app --tag library/x -t r.io/y .'' =
       [''build'', ''-t'', ''app'', ''--tag'', ''library/x'', ''-t'', ''r.io/y'', ''.'']
   \<and> PrefixTags ''build -t app --tag library/x -t r.io/y .'' ''r.io'' =
     (''build -t r.io/app --tag library/x -t r.io/y .'', [''r.io/app'', ''library/x'', ''r.io/y''])"
proof -
  have h: "noFlagAfterFlag (Fields ''build -t app --tag library/x -t r.io/y .'')" by code_simp
  have f: "Fields ''build -t app --tag library/x -t r.io/y .'' =
       [''build'', ''-t'', ''app'', ''--tag'', ''library/x'', ''-t'', ''r.io/y'', ''.'']"
    by code_simp
  have j: "Join (prefixedFields ''r.io'' (Fields ''build -t app --tag library/x -t r.io/y .'')) '' ''
      = ''build -t r.io/app --tag library/x -t r.io/y .''"
    by code_simp
  have t: "prefixedTags ''r.io'' (Fields ''build -t app --tag library/x -t r.io/y .'')
      = [''r.io/app'', ''library/x'', ''r.io/y'']"
    by code_simp
  from PrefixTags_prefixes_tags [OF h, of "''r.io''"] h f j t show ?thesis by simp
qed

text \<open>
  The claim as the specification words it fails on a tag that starts with the registry
  string without the separator, and on a field after a flag that was itself rewritten as
  the value of the flag before it.
\<close>

theorem PrefixTags_claimed_counterexample:
  "PrefixTags ''build -t registry.io/app -t -t foo .'' ''reg'' =
     (''build -t registry.io/app -t reg/-t foo .'', [''registry.io/app'', ''reg/-t''])
   \<and> PrefixTags_claimed ''build -t registry.io/app -t -t foo .'' ''reg'' =
     (''build -t reg/registry.io/app -t reg/-t reg/foo .'',
      [''reg/registry.io/app'', ''reg/-t'', ''reg/foo''])
   \<and> PrefixTags ''build -t registry.io/app -t -t foo .'' ''reg''
       \<noteq> PrefixTags_claimed ''build -t registry.io/app -t -t foo .'' ''reg''"
proof -
  have a: "PrefixTags ''build -t registry.io/app -t -t foo .'' ''reg'' =
     (''build -t registry.io/app -t reg/-t foo .'', [''registry.io/app'', ''reg/-t''])"
    by code_simp
  have b: "PrefixTags_claimed ''build -t registry.io/app -t -t foo .'' ''reg'' =
     (''build -t reg/registry.io/app -t reg/-t reg/foo .'',
      [''reg/registry.io/app'', ''reg/-t'', ''reg/foo''])"
    by code_simp
  show ?thesis unfolding a b by simp
qed


section \<open>Properties of the worker\<close>


lemma runStepCommand_result:
  "runStepCommand h env once step args evs =
     (runResult env, step, once \<or> needsPreRun h step,
      evs @ (if needsPreRun h step \<and> \<not> once then [ProcRun (preRunArgs h step)] else []) @
      [ProcRunRepeatWithRetries args (Retries step) (RetryOnErrors step)
         (RetryDelayInSeconds step) (ID step) (Repeat step)])"
  by (simp add: runStepCommand_def Let_def)

lemma runStepCommand_calls:
  assumes "runStepCommand h env once step args evs = (err, step', once', evs')"
    and "\<forall>e\<in>set evs. \<not> isWorkerOp e"
  shows "\<forall>e\<in>set evs'. \<not> isWorkerOp e"
  using assms by (auto simp: runStepCommand_result)

lemma runStepBuild_calls:
  assumes "runStepBuild h b env once step evs = (err, step', once', evs')"
    and "\<forall>e\<in>set evs. \<not> isWorkerOp e"
  shows "\<forall>e\<in>set evs'. \<not> isWorkerOp e"
  using assms
  by (auto simp: runStepBuild_def runStepCommand_result Let_def split: prod.splits sum.splits)

lemma runStep_calls:
  assumes "runStep h b env once step = (err, step', once', evs)"
  shows "\<forall>e\<in>set evs. \<not> isWorkerOp e"
proof -
  let ?evs1 = "(if 0 < StartDelay step then [Sleep (StartDelay step)] else []) @
            (if IsCmdStep step \<and> Pull step
             then [ProcRunWithRetries (pullArgs h (Cmd step)) (CmdDownloadRetries step) []
                     (CmdDownloadRetryDelayInSeconds step) []]
             else [])"
  have e1: "\<forall>e\<in>set ?evs1. \<not> isWorkerOp e" by auto
  show ?thesis
  proof (cases "IsCmdStep step \<and> Pull step \<and> pullResult env \<noteq> None")
    case True
    with assms have "evs = ?evs1" by (auto simp: runStep_def Let_def)
    with e1 show ?thesis by simp
  next
    case False
    let ?s1 = "step\<lparr>StepStatus := InProgress\<rparr>"
    show ?thesis
    proof (cases "IsBuildStep ?s1")
      case True
      with False assms have "runStepBuild h b env once ?s1 ?evs1 = (err, step', once', evs)"
        by (auto simp: runStep_def Let_def)
      from runStepBuild_calls [OF this e1] show ?thesis .
    next
      case nb: False
      show ?thesis
      proof (cases "IsPushStep ?s1")
        case True
        with False nb assms have "evs = ?evs1 @ [PushWithRetries (Push ?s1)]"
          by (auto simp: runStep_def Let_def)
        with e1 show ?thesis by simp
      next
        case np: False
        with False nb assms have "runStepCommand h env once ?s1
                     (getDockerRunArgsForStep h (workspaceDir b) (WorkingDirectory ?s1) ?s1
                        (EntryPoint ?s1) (Cmd ?s1)) ?evs1 = (err, step', once', evs)"
          by (auto simp: runStep_def Let_def)
        from runStepCommand_calls [OF this e1] show ?thesis .
      qed
    qed
  qed
qed

text \<open>
  Claim C3. For every step whose execution returns an error and whose \<open>IgnoreErrors\<close> flag
  is true, the step's status is set to \<open>Successful\<close>, a worker is spawned for each child of
  the step, and no error is posted to the error channel.
\<close>

theorem processVertex_ignores_error:
  assumes rm: "removeEdgeResult env = None"
    and deg: "degree env = 0"
    and rs: "runStep h b (stepEnv env) (onceDone env) (Value child) = (Some err, step, once, evs)"
    and ign: "IgnoreErrors step"
  shows "processVertex h b env parent child =
           (step\<lparr>StepStatus := Successful\<rparr>, once,
            evs @ [Log ''Step ID: %s encountered an error: %v, but is set to ignore errors. Continuing...'' [ID step, err],
                   SetStatus (ID step) Successful] @
            map (\<lambda>c. Go (Name child) (Name c)) (children env) @ [SendCompleted (ID step)])
         \<and> StepStatus (fst (processVertex h b env parent child)) = Successful
         \<and> (\<forall>c\<in>set (children env).
               Go (Name child) (Name c) \<in> set (snd (snd (processVertex h b env parent child))))
         \<and> (\<forall>e. SendError e \<notin> set (snd (snd (processVertex h b env parent child))))"
proof -
  have pv: "processVertex h b env parent child =
           (step\<lparr>StepStatus := Successful\<rparr>, once,
            evs @ [Log ''Step ID: %s encountered an error: %v, but is set to ignore errors. Continuing...'' [ID step, err],
                   SetStatus (ID step) Successful] @
            map (\<lambda>c. Go (Name child) (Name c)) (children env) @ [SendCompleted (ID step)])"
    using rm deg rs ign by (simp add: processVertex_def spawnChildren_def)
  have calls: "\<forall>e\<in>set evs. \<not> isWorkerOp e" using runStep_calls [OF rs] .
  have noerr: "\<forall>e. SendError e \<notin> set evs"
  proof
    fix e show "SendError e \<notin> set evs" using calls by (auto dest: bspec [where x = "SendError e"])
  qed
  show ?thesis unfolding pv using noerr by auto
qed

theorem processVertex_ignores_error_witness:
  "removeEdgeResult fails = None \<and> degree fails = 0
   \<and> runStep exampleHelpers exampleBuilder (stepEnv fails) (onceDone fails) (Value ignoringNode) =
       (Some ''exit status 1'', (Value ignoringNode)\<lparr>StepStatus := InProgress\<rparr>, False,
        [ProcRunRepeatWithRetries [''docker'', ''run'', ''--name'', ''a'', ''bash false''] 0 [] 0 ''a'' 0])
   \<and> IgnoreErrors ((Value ignoringNode)\<lparr>StepStatus := InProgress\<rparr>)
   \<and> StepStatus (fst (processVertex exampleHelpers exampleBuilder fails rootNode ignoringNode)) = Successful
   \<and> snd (snd (processVertex exampleHelpers exampleBuilder fails rootNode ignoringNode)) =
       [ProcRunRepeatWithRetries [''docker'', ''run'', ''--name'', ''a'', ''bash false''] 0 [] 0 ''a'' 0,
        Log ''Step ID: %s encountered an error: %v, but is set to ignore errors. Continuing...''
          [''a'', ''exit status 1''],
        SetStatus ''a'' Successful, Go ''a'' ''b'', Go ''a'' ''c'', SendCompleted ''a'']"
proof -
  have rm: "removeEdgeResult fails = None" and deg: "degree fails = 0"
    by (simp_all add: fails_def succeeds_def)
  have rs: "runStep exampleHelpers exampleBuilder (stepEnv fails) (onceDone fails) (Value ignoringNode) =
       (Some ''exit status 1'', (Value ignoringNode)\<lparr>StepStatus := InProgress\<rparr>, False,
        [ProcRunRepeatWithRetries [''docker'', ''run'', ''--name'', ''a'', ''bash false''] 0 [] 0 ''a'' 0])"
    by code_simp
  have ign: "IgnoreErrors ((Value ignoringNode)\<lparr>StepStatus := InProgress\<rparr>)"
    by (simp add: ignoringNode_def)
  have ch: "children fails = [cmdNode ''b'' ''alpine'', cmdNode ''c'' ''alpine'']"
    by (simp add: fails_def succeeds_def)
  from processVertex_ignores_error [OF rm deg rs ign, of rootNode] rm deg rs ign
  show ?thesis
    by (simp add: ch ignoringNode_def cmdNode_def cmdStep_def zeroStep_def)
qed


lemma runStep_no_SendError:
  "runStep h b env once step = (err, step', once', evs) \<Longrightarrow> SendError e \<notin> set evs"
  using runStep_calls [of h b env once step err step' once' evs] by fastforce

lemma processVertex_succeeded:
  assumes "removeEdgeResult env = None" "degree env = 0"
    and "runStep h b (stepEnv env) (onceDone env) (Value child) = (None, step, once, evs)"
  shows "processVertex h b env parent child =
           (step\<lparr>StepStatus := Successful\<rparr>, once,
            evs @ [SetStatus (ID step) Successful] @ spawnChildren child (children env) @
            [SendCompleted (ID step)])"
  using assms by (simp add: processVertex_def)

lemma processVertex_ignored:
  assumes "removeEdgeResult env = None" "degree env = 0"
    and "runStep h b (stepEnv env) (onceDone env) (Value child) = (Some e, step, once, evs)"
    and "IgnoreErrors step"
  shows "processVertex h b env parent child =
           (step\<lparr>StepStatus := Successful\<rparr>, once,
            evs @ [Log ''Step ID: %s encountered an error: %v, but is set to ignore errors. Continuing...'' [ID step, e],
                   SetStatus (ID step) Successful] @
            spawnChildren child (children env) @ [SendCompleted (ID step)])"
  using assms by (simp add: processVertex_def)

lemma processVertex_failed:
  assumes "removeEdgeResult env = None" "degree env = 0"
    and "runStep h b (stepEnv env) (onceDone env) (Value child) = (Some e, step, once, evs)"
    and "\<not> IgnoreErrors step"
  shows "processVertex h b env parent child =
           (step\<lparr>StepStatus := Failed\<rparr>, once,
            evs @ [SetStatus (ID step) Failed,
                   SendError (Wrap e (''failed to run step ID: '' @ ID step)),
                   SendCompleted (ID step)])"
  using assms by (simp add: processVertex_def)

text \<open>
  Claim C4, as the code has it. In the worker of a node whose degree has reached zero, the
  terminal status is set after \<open>runStep\<close> has returned; when the step succeeded or failed
  with \<open>IgnoreErrors\<close>, the worker then spawns a worker for each child, and only afterwards
  sends on the node's completion channel, which is the last thing it does. When the step
  failed without \<open>IgnoreErrors\<close>, it spawns nothing, posts the error, and then sends on the
  completion channel.
\<close>

theorem processVertex_spawns_then_completes:
  assumes rm: "removeEdgeResult env = None"
    and deg: "degree env = 0"
    and rs: "runStep h b (stepEnv env) (onceDone env) (Value child) = (err, step, once, evs)"
  shows "(err = None \<or> IgnoreErrors step \<longrightarrow>
           (\<exists>logs. snd (snd (processVertex h b env parent child)) =
                    evs @ logs @ [SetStatus (ID step) Successful] @
                    map (\<lambda>c. Go (Name child) (Name c)) (children env) @
                    [SendCompleted (ID step)]
                  \<and> (\<forall>e\<in>set logs. \<exists>f args. e = Log f args)))
       \<and> (err \<noteq> None \<and> \<not> IgnoreErrors step \<longrightarrow>
           (\<exists>e. snd (snd (processVertex h b env parent child)) =
                    evs @ [SetStatus (ID step) Failed, SendError e, SendCompleted (ID step)]))
       \<and> (\<forall>e\<in>set evs. \<not> isWorkerOp e)"
proof (intro conjI impI)
  assume good: "err = None \<or> IgnoreErrors step"
  show "\<exists>logs. snd (snd (processVertex h b env parent child)) =
                    evs @ logs @ [SetStatus (ID step) Successful] @
                    map (\<lambda>c. Go (Name child) (Name c)) (children env) @
                    [SendCompleted (ID step)]
                  \<and> (\<forall>e\<in>set logs. \<exists>f args. e = Log f args)"
  proof (cases err)
    case None
    with rm deg rs have "snd (snd (processVertex h b env parent child)) =
                    evs @ [] @ [SetStatus (ID step) Successful] @
                    map (\<lambda>c. Go (Name child) (Name c)) (children env) @
                    [SendCompleted (ID step)]"
      by (simp add: processVertex_def spawnChildren_def)
    then show ?thesis by (intro exI [of _ "[]"]) simp
  next
    case (Some e)
    with good have "IgnoreErrors step" by simp
    with Some rm deg rs have "snd (snd (processVertex h b env parent child)) =
                    evs @ [Log ''Step ID: %s encountered an error: %v, but is set to ignore errors. Continuing...'' [ID step, e]]
                      @ [SetStatus (ID step) Successful] @
                    map (\<lambda>c. Go (Name child) (Name c)) (children env) @
                    [SendCompleted (ID step)]"
      by (simp add: processVertex_def spawnChildren_def)
    then show ?thesis
      by (intro exI [of _ "[Log ''Step ID: %s encountered an error: %v, but is set to ignore errors. Continuing...'' [ID step, e]]"]) simp
  qed
next
  assume "err \<noteq> None \<and> \<not> IgnoreErrors step"
  then obtain e where "err = Some e" and "\<not> IgnoreErrors step" by auto
  with rm deg rs show "\<exists>e. snd (snd (processVertex h b env parent child)) =
                    evs @ [SetStatus (ID step) Failed, SendError e, SendCompleted (ID step)]"
    by (simp add: processVertex_def)
next
  show "\<forall>e\<in>set evs. \<not> isWorkerOp e" using runStep_calls [OF rs] .
qed

theorem processVertex_spawns_then_completes_witness:
  "removeEdgeResult succeeds = None \<and> degree succeeds = 0
   \<and> runStep exampleHelpers exampleBuilder (stepEnv succeeds) (onceDone succeeds)
         (Value (cmdNode ''a'' ''bash echo hi'')) =
       (None, (cmdStep ''a'' ''bash echo hi'')\<lparr>StepStatus := InProgress\<rparr>, False,
        [ProcRunRepeatWithRetries [''docker'', ''run'', ''--name'', ''a'', ''bash echo hi''] 0 [] 0 ''a'' 0])
   \<and> snd (snd (processVertex exampleHelpers exampleBuilder succeeds rootNode
                  (cmdNode ''a'' ''bash echo hi''))) =
         [ProcRunRepeatWithRetries [''docker'', ''run'', ''--name'', ''a'', ''bash echo hi''] 0 [] 0 ''a'' 0,
          SetStatus ''a'' Successful, Go ''a'' ''b'', Go ''a'' ''c'', SendCompleted ''a'']"
proof -
  have rm: "removeEdgeResult succeeds = None" and deg: "degree succeeds = 0"
    by (simp_all add: succeeds_def)
  have rs: "runStep exampleHelpers exampleBuilder (stepEnv succeeds) (onceDone succeeds)
         (Value (cmdNode ''a'' ''bash echo hi'')) =
       (None, (cmdStep ''a'' ''bash echo hi'')\<lparr>StepStatus := InProgress\<rparr>, False,
        [ProcRunRepeatWithRetries [''docker'', ''run'', ''--name'', ''a'', ''bash echo hi''] 0 [] 0 ''a'' 0])"
    by code_simp
  have tr: "snd (snd (processVertex exampleHelpers exampleBuilder succeeds rootNode
                  (cmdNode ''a'' ''bash echo hi''))) =
         [ProcRunRepeatWithRetries [''docker'', ''run'', ''--name'', ''a'', ''bash echo hi''] 0 [] 0 ''a'' 0,
          SetStatus ''a'' Successful, Go ''a'' ''b'', Go ''a'' ''c'', SendCompleted ''a'']"
    by code_simp
  from processVertex_spawns_then_completes [OF rm deg rs, of rootNode] rm deg rs tr
  show ?thesis by simp
qed

text \<open>
  The order that the specification gives, completion signal first and children afterwards,
  is not the order of the code.
\<close>

theorem processVertex_completion_first_counterexample:
  "snd (snd (processVertex exampleHelpers exampleBuilder succeeds rootNode
        (cmdNode ''a'' ''bash echo hi'')))
   = [ProcRunRepeatWithRetries [''docker'', ''run'', ''--name'', ''a'', ''bash echo hi''] 0 [] 0 ''a'' 0,
      SetStatus ''a'' Successful, Go ''a'' ''b'', Go ''a'' ''c'', SendCompleted ''a'']
   \<and> \<not> precedes (SendCompleted ''a'') (Go ''a'' ''b'')
        [ProcRunRepeatWithRetries [''docker'', ''run'', ''--name'', ''a'', ''bash echo hi''] 0 [] 0 ''a'' 0,
         SetStatus ''a'' Successful, Go ''a'' ''b'', Go ''a'' ''c'', SendCompleted ''a'']
   \<and> precedes (Go ''a'' ''b'') (SendCompleted ''a'')
        [ProcRunRepeatWithRetries [''docker'', ''run'', ''--name'', ''a'', ''bash echo hi''] 0 [] 0 ''a'' 0,
         SetStatus ''a'' Successful, Go ''a'' ''b'', Go ''a'' ''c'', SendCompleted ''a'']"
  by code_simp


lemma startEvents_no_RunRepeat: "\<forall>e\<in>set (startEvents h step). \<not> isRunRepeat e"
  by (auto simp: startEvents_def)

lemma runStep_unfold:
  "runStep h b env once step =
     (if IsCmdStep step \<and> Pull step \<and> pullResult env \<noteq> None
      then (pullResult env, step, once, startEvents h step)
      else if IsBuildStep step
        then runStepBuild h b env once (step\<lparr>StepStatus := InProgress\<rparr>) (startEvents h step)
      else if IsPushStep step
        then (pushResult env, step\<lparr>StepStatus := InProgress\<rparr>, once,
              startEvents h step @ [PushWithRetries (Push step)])
      else runStepCommand h env once (step\<lparr>StepStatus := InProgress\<rparr>)
             (getDockerRunArgsForStep h (workspaceDir b) (WorkingDirectory step)
                (step\<lparr>StepStatus := InProgress\<rparr>) (EntryPoint step) (Cmd step))
             (startEvents h step))"
  by (auto simp: runStep_def startEvents_def Let_def IsBuildStep_def IsPushStep_def)

lemma runStep_build:
  "\<not> (IsCmdStep step \<and> Pull step \<and> pullResult env \<noteq> None) \<Longrightarrow> IsBuildStep step \<Longrightarrow>
   runStep h b env once step =
     runStepBuild h b env once (step\<lparr>StepStatus := InProgress\<rparr>) (startEvents h step)"
  by (cases "pullResult env") (auto simp: runStep_unfold)

lemma runStep_push:
  "\<not> (IsCmdStep step \<and> Pull step \<and> pullResult env \<noteq> None) \<Longrightarrow> \<not> IsBuildStep step \<Longrightarrow>
   IsPushStep step \<Longrightarrow>
   runStep h b env once step =
     (pushResult env, step\<lparr>StepStatus := InProgress\<rparr>, once,
      startEvents h step @ [PushWithRetries (Push step)])"
  by (cases "pullResult env") (auto simp: runStep_unfold)

lemma runStep_cmd:
  "\<not> (IsCmdStep step \<and> Pull step \<and> pullResult env \<noteq> None) \<Longrightarrow> \<not> IsBuildStep step \<Longrightarrow>
   \<not> IsPushStep step \<Longrightarrow>
   runStep h b env once step =
     runStepCommand h env once (step\<lparr>StepStatus := InProgress\<rparr>)
       (getDockerRunArgsForStep h (workspaceDir b) (WorkingDirectory step)
          (step\<lparr>StepStatus := InProgress\<rparr>) (EntryPoint step) (Cmd step))
       (startEvents h step)"
  by (cases "pullResult env") (auto simp: runStep_unfold)

lemma runStep_pullfail:
  "IsCmdStep step \<and> Pull step \<and> pullResult env \<noteq> None \<Longrightarrow>
   runStep h b env once step = (pullResult env, step, once, startEvents h step)"
  by (cases "pullResult env") (auto simp: runStep_unfold)

lemma runStepCommand_shape:
  assumes "runStepCommand h env once step args evs = (err, step', once', evs')"
    and "\<forall>e\<in>set evs. \<not> isRunRepeat e"
  shows "\<exists>pre args'. evs' = pre @ [ProcRunRepeatWithRetries args' (Retries step') (RetryOnErrors step')
             (RetryDelayInSeconds step') (ID step') (Repeat step')]
           \<and> (\<forall>e\<in>set pre. \<not> isRunRepeat e) \<and> err = runResult env \<and> step' = step"
proof -
  let ?pre = "evs @ (if needsPreRun h step \<and> \<not> once then [ProcRun (preRunArgs h step)] else [])"
  from assms(1) have "evs' = ?pre @ [ProcRunRepeatWithRetries args (Retries step') (RetryOnErrors step')
             (RetryDelayInSeconds step') (ID step') (Repeat step')]" and "err = runResult env" and "step' = step"
    by (auto simp: runStepCommand_result)
  moreover have "\<forall>e\<in>set ?pre. \<not> isRunRepeat e" using assms(2) by auto
  ultimately show ?thesis by blast
qed

lemma runStepBuild_shape:
  assumes "runStepBuild h b env once step evs = (err, step', once', evs')"
    and "\<forall>e\<in>set evs. \<not> isRunRepeat e"
  shows "if isl (scrapeResult env) then (\<forall>e\<in>set evs'. \<not> isRunRepeat e) \<and> err \<noteq> None
         else (\<exists>pre args'. evs' = pre @ [ProcRunRepeatWithRetries args' (Retries step') (RetryOnErrors step')
             (RetryDelayInSeconds step') (ID step') (Repeat step')]
           \<and> (\<forall>e\<in>set pre. \<not> isRunRepeat e) \<and> err = runResult env)"
proof (cases "scrapeResult env")
  case (Inl e)
  with assms show ?thesis
    by (auto simp: runStepBuild_def Let_def split: prod.splits)
next
  case (Inr deps)
  obtain dockerfile target dockerContext where p: "parseDockerBuildCmd h (Build step) = (dockerfile, target, dockerContext)"
    by (cases "parseDockerBuildCmd h (Build step)") auto
  let ?evs = "evs @ [ScrapeDependencies (workspaceDir b) (WorkingDirectory step) (ID step) dockerfile
                          dockerContext (Tags step) (BuildArgs step) target]"
  have ne: "\<forall>e\<in>set ?evs. \<not> isRunRepeat e" using assms(2) by auto
  from assms(1) Inr p obtain st args where
    "runStepCommand h env once st args ?evs = (err, step', once', evs')"
    by (simp add: runStepBuild_def Let_def)
  from runStepCommand_shape [OF this ne] Inr show ?thesis by auto
qed

lemma runStepCommand_extends:
  "runStepCommand h env once step args evs = (err, step', once', evs') \<Longrightarrow> \<exists>rest. evs' = evs @ rest"
  by (auto simp: runStepCommand_result)

lemma runStepBuild_extends:
  "runStepBuild h b env once step evs = (err, step', once', evs') \<Longrightarrow> \<exists>rest. evs' = evs @ rest"
  by (auto simp: runStepBuild_def runStepCommand_result Let_def split: prod.splits sum.splits)

lemma one_RunRepeat:
  assumes "evs = pre @ [x]" "isRunRepeat x" "\<forall>e\<in>set pre. \<not> isRunRepeat e"
  shows "(\<forall>e\<in>set evs. isRunRepeat e \<longrightarrow> e = last evs \<and> e = x) \<and> length (filter isRunRepeat evs) = 1"
  using assms by auto

text \<open>
  Claim C5, as the code has it. The step's own command is run through
  \<^verbatim>\<open>RunRepeatWithRetries\<close> with the \<open>Retries\<close>, \<open>RetryOnErrors\<close>, \<open>RetryDelayInSeconds\<close>, \<open>ID\<close>
  and \<open>Repeat\<close> of the step as it stands at the call, and that call is the last one of the
  step. There is exactly one such call when the step is a build step whose dependency scan
  succeeds or a command step, after an explicit pull that did not fail; otherwise there is
  none. A step that is not a build step keeps these fields throughout. The explicit pull of
  a command step goes through \<^verbatim>\<open>RunWithRetries\<close> with \<open>CmdDownloadRetries\<close>, no patterns and
  \<open>CmdDownloadRetryDelayInSeconds\<close>; a push step ends with \<^verbatim>\<open>pushWithRetries\<close> on the
  step's \<open>Push\<close> list and returns its result.
\<close>

theorem runStep_retry_policy:
  assumes rs: "runStep h b env once step = (err, step', once', evs)"
  shows "(\<forall>e\<in>set evs. isRunRepeat e \<longrightarrow>
            e = last evs \<and> (\<exists>args. e = ProcRunRepeatWithRetries args (Retries step') (RetryOnErrors step')
                   (RetryDelayInSeconds step') (ID step') (Repeat step')))
       \<and> length (filter isRunRepeat evs) = (if reachesCommand env step then 1 else 0)
       \<and> (reachesCommand env step \<longrightarrow> err = runResult env)
       \<and> (\<not> IsBuildStep step \<longrightarrow>
            Retries step' = Retries step \<and> RetryOnErrors step' = RetryOnErrors step \<and>
            RetryDelayInSeconds step' = RetryDelayInSeconds step \<and> Repeat step' = Repeat step \<and>
            ID step' = ID step)
       \<and> (IsCmdStep step \<and> Pull step \<longrightarrow>
            ProcRunWithRetries (pullArgs h (Cmd step)) (CmdDownloadRetries step) []
              (CmdDownloadRetryDelayInSeconds step) [] \<in> set evs)
       \<and> (\<not> IsBuildStep step \<and> IsPushStep step \<and> \<not> (IsCmdStep step \<and> Pull step \<and> pullResult env \<noteq> None) \<longrightarrow>
            last evs = PushWithRetries (Push step) \<and> err = pushResult env)"
proof -
  let ?s1 = "step\<lparr>StepStatus := InProgress\<rparr>"
  have pullev: "IsCmdStep step \<and> Pull step \<longrightarrow>
            ProcRunWithRetries (pullArgs h (Cmd step)) (CmdDownloadRetries step) []
              (CmdDownloadRetryDelayInSeconds step) [] \<in> set (startEvents h step)"
    by (simp add: startEvents_def)
  note ne = startEvents_no_RunRepeat [of h step]
  consider (pullfail) "IsCmdStep step \<and> Pull step \<and> pullResult env \<noteq> None"
    | (build) "\<not> (IsCmdStep step \<and> Pull step \<and> pullResult env \<noteq> None)" "IsBuildStep step"
    | (push) "\<not> (IsCmdStep step \<and> Pull step \<and> pullResult env \<noteq> None)" "\<not> IsBuildStep step" "IsPushStep step"
    | (cmd) "\<not> (IsCmdStep step \<and> Pull step \<and> pullResult env \<noteq> None)" "\<not> IsBuildStep step" "\<not> IsPushStep step"
    by blast
  then show ?thesis
  proof cases
    case pullfail
    with rs have r: "evs = startEvents h step" "step' = step"
      by (auto simp: runStep_pullfail)
    have "\<not> reachesCommand env step" using pullfail by (simp add: reachesCommand_def)
    with r ne pullev pullfail show ?thesis by auto
  next
    case build
    with rs have rb: "runStepBuild h b env once ?s1 (startEvents h step) = (err, step', once', evs)"
      by (simp add: runStep_build)
    from runStepBuild_extends [OF rb] pullev have pe: "IsCmdStep step \<and> Pull step \<longrightarrow>
            ProcRunWithRetries (pullArgs h (Cmd step)) (CmdDownloadRetries step) []
              (CmdDownloadRetryDelayInSeconds step) [] \<in> set evs" by auto
    show ?thesis
    proof (cases "isl (scrapeResult env)")
      case True
      with runStepBuild_shape [OF rb ne] have "\<forall>e\<in>set evs. \<not> isRunRepeat e" by simp
      moreover have "\<not> reachesCommand env step" using True build by (simp add: reachesCommand_def)
      ultimately show ?thesis using pe build by (auto simp: filter_empty_conv)
    next
      case False
      with runStepBuild_shape [OF rb ne] obtain pre args' where
        sh: "evs = pre @ [ProcRunRepeatWithRetries args' (Retries step') (RetryOnErrors step')
             (RetryDelayInSeconds step') (ID step') (Repeat step')]"
        "\<forall>e\<in>set pre. \<not> isRunRepeat e" "err = runResult env" by auto
      have "reachesCommand env step" using False build by (simp add: reachesCommand_def)
      with one_RunRepeat [OF sh(1) _ sh(2)] sh(3) pe build show ?thesis by auto
    qed
  next
    case push
    with rs have r: "evs = startEvents h step @ [PushWithRetries (Push step)]" "step' = ?s1"
      "err = pushResult env"
      by (auto simp: runStep_push)
    have "\<not> reachesCommand env step" using push by (simp add: reachesCommand_def)
    with r ne pullev push show ?thesis by auto
  next
    case cmd
    with rs have rc: "runStepCommand h env once ?s1
             (getDockerRunArgsForStep h (workspaceDir b) (WorkingDirectory step) ?s1 (EntryPoint step) (Cmd step))
             (startEvents h step) = (err, step', once', evs)"
      by (simp add: runStep_cmd)
    from runStepCommand_extends [OF rc] pullev have pe: "IsCmdStep step \<and> Pull step \<longrightarrow>
            ProcRunWithRetries (pullArgs h (Cmd step)) (CmdDownloadRetries step) []
              (CmdDownloadRetryDelayInSeconds step) [] \<in> set evs" by auto
    from runStepCommand_shape [OF rc ne] obtain pre args' where
        sh: "evs = pre @ [ProcRunRepeatWithRetries args' (Retries step') (RetryOnErrors step')
             (RetryDelayInSeconds step') (ID step') (Repeat step')]"
        "\<forall>e\<in>set pre. \<not> isRunRepeat e" "err = runResult env" "step' = ?s1" by auto
    have "reachesCommand env step" using cmd by (simp add: reachesCommand_def)
    with one_RunRepeat [OF sh(1) _ sh(2)] sh(3,4) pe cmd show ?thesis by auto
  qed
qed

theorem runStep_retry_policy_witness:
  "runStep exampleHelpers exampleBuilder allFine False pullingStep =
     (None, pullingStep\<lparr>StepStatus := InProgress\<rparr>, False,
      [ProcRunWithRetries [''docker'', ''run'', ''--rm'', ''--volume'',
         ''/var/run/docker.sock:/var/run/docker.sock'', ''docker'', ''pull'', ''bash''] 1 [] 0 [],
       ProcRunRepeatWithRetries [''docker'', ''run'', ''--name'', ''a'', ''bash echo hi''] 3 [] 0 ''a'' 0])
   \<and> reachesCommand allFine pullingStep \<and> IsCmdStep pullingStep \<and> Pull pullingStep
   \<and> \<not> IsBuildStep pullingStep
   \<and> length (filter isRunRepeat
         [ProcRunWithRetries [''docker'', ''run'', ''--rm'', ''--volume'',
            ''/var/run/docker.sock:/var/run/docker.sock'', ''docker'', ''pull'', ''bash''] 1 [] 0 [],
          ProcRunRepeatWithRetries [''docker'', ''run'', ''--name'', ''a'', ''bash echo hi''] 3 [] 0 ''a'' 0]) = 1"
proof -
  have rs: "runStep exampleHelpers exampleBuilder allFine False pullingStep =
     (None, pullingStep\<lparr>StepStatus := InProgress\<rparr>, False,
      [ProcRunWithRetries [''docker'', ''run'', ''--rm'', ''--volume'',
         ''/var/run/docker.sock:/var/run/docker.sock'', ''docker'', ''pull'', ''bash''] 1 [] 0 [],
       ProcRunRepeatWithRetries [''docker'', ''run'', ''--name'', ''a'', ''bash echo hi''] 3 [] 0 ''a'' 0])"
    by code_simp
  have k: "reachesCommand allFine pullingStep" "IsCmdStep pullingStep" "Pull pullingStep"
    "\<not> IsBuildStep pullingStep"
    by (simp_all add: reachesCommand_def allFine_def pullingStep_def cmdStep_def zeroStep_def
        IsCmdStep_def IsBuildStep_def IsPushStep_def)
  from runStep_retry_policy [OF rs] k rs show ?thesis by simp
qed

text \<open>
  A command step with \<open>Pull\<close> set pulls its image through \<^verbatim>\<open>RunWithRetries\<close>, with the
  retries of the download and not those of the step.
\<close>

theorem runStep_retry_policy_counterexample:
  "snd (snd (snd (runStep exampleHelpers exampleBuilder allFine False
       pullingStep)))
   = [ProcRunWithRetries [''docker'', ''run'', ''--rm'', ''--volume'',
         ''/var/run/docker.sock:/var/run/docker.sock'', ''docker'', ''pull'', ''bash''] 1 [] 0 [],
      ProcRunRepeatWithRetries [''docker'', ''run'', ''--name'', ''a'', ''bash echo hi''] 3 [] 0 ''a'' 0]
   \<and> \<not> list_all (followsRetryPolicy
          pullingStep)
        (snd (snd (snd (runStep exampleHelpers exampleBuilder allFine False
       pullingStep))))"
  by code_simp



section \<open>Properties of RunTask\<close>



lemma createNetworks_buildkit [simp]:
  "createNetworks (env\<lparr>buildkitResult := x\<rparr>) i ns = createNetworks env i ns"
  by (induction ns arbitrary: i) (auto split: prod.splits option.splits)

lemma loginAll_buildkit [simp]:
  "loginAll (env\<lparr>buildkitResult := x\<rparr>) i cs = loginAll env i cs"
  by (induction cs arbitrary: i) (auto split: prod.splits option.splits)

lemma prepare_buildkit [simp]:
  "prepare h (env\<lparr>buildkitResult := x\<rparr>) task = prepare h env task"
  by (auto simp: prepare_def split: prod.splits option.splits)

lemma prepareVolumes_buildkit [simp]:
  "prepareVolumes (env\<lparr>buildkitResult := x\<rparr>) i vs = prepareVolumes env i vs"
  by (induction vs arbitrary: i) (auto simp: prepareVolumeSource_def split: prod.splits option.splits)

lemma populateAll_buildkit [simp]:
  "populateAll h (env\<lparr>buildkitResult := x\<rparr>) i ss = populateAll h env i ss"
  by (induction ss arbitrary: i) (auto simp: Let_def split: prod.splits option.splits)

lemma report_buildkit [simp]:
  "report h (env\<lparr>buildkitResult := x\<rparr>) task = report h env task"
  by (auto simp: report_def split: prod.splits option.splits)

lemma createNetworks_quiet:
  "createNetworks env i ns = (r, evs) \<Longrightarrow> e \<in> set evs \<Longrightarrow> quiet e"
proof (induction ns arbitrary: i r evs)
  case Nil
  then show ?case by simp
next
  case (Cons n ns)
  show ?case
  proof (cases "SkipCreation n")
    case True
    with Cons.prems have "createNetworks env (Suc i) ns = (r, evs)" by simp
    from Cons.IH [OF this Cons.prems(2)] show ?thesis .
  next
    case False
    obtain msg res where nr: "networkCreateResult env i = (msg, res)"
      by (cases "networkCreateResult env i") auto
    show ?thesis
    proof (cases res)
      case (Some err)
      with False nr Cons.prems show ?thesis by (auto simp: quiet_def)
    next
      case None
      obtain r' evs' where rec: "createNetworks env (Suc i) ns = (r', evs')"
        by (cases "createNetworks env (Suc i) ns") auto
      with None False nr Cons.prems have "evs = NetworkCreate (NetName n) # evs'" by auto
      with Cons.prems(2) Cons.IH [OF rec] show ?thesis by (auto simp: quiet_def)
    qed
  qed
qed

lemma loginAll_quiet:
  "loginAll env i cs = (r, evs) \<Longrightarrow> e \<in> set evs \<Longrightarrow> quiet e"
proof (induction cs arbitrary: i r evs)
  case Nil
  then show ?case by simp
next
  case (Cons c cs)
  obtain registry username password where c: "c = (registry, username, password)"
    by (cases c) auto
  show ?case
  proof (cases "loginResult env i")
    case (Some err)
    with c Cons.prems show ?thesis by (auto simp: quiet_def)
  next
    case None
    obtain r' evs' where rec: "loginAll env (Suc i) cs = (r', evs')"
      by (cases "loginAll env (Suc i) cs") auto
    with None c Cons.prems have "evs = DockerLogin registry username password # evs'" by auto
    with Cons.prems(2) Cons.IH [OF rec] show ?thesis by (auto simp: quiet_def)
  qed
qed

lemma prepare_quiet:
  assumes "prepare h env task = (r, evs)" "e \<in> set evs"
  shows "quiet e"
proof -
  obtain r1 evs1 where cn: "createNetworks env 0 (Networks task) = (r1, evs1)"
    by (cases "createNetworks env 0 (Networks task)") auto
  obtain r2 evs2 where la: "loginAll env 0 (RegistryLoginCredentials task) = (r2, evs2)"
    by (cases "loginAll env 0 (RegistryLoginCredentials task)") auto
  from assms(1) cn la have "set evs \<subseteq> set evs1 \<union> {SetupConfig} \<union> set evs2"
    by (auto simp: prepare_def split: option.splits if_splits)
  with assms(2) createNetworks_quiet [OF cn] loginAll_quiet [OF la] show ?thesis
    by (auto simp: quiet_def)
qed

lemma prepareVolumeSource_quiet:
  "prepareVolumeSource env i v = (r, evs) \<Longrightarrow> e \<in> set evs \<Longrightarrow> quiet e"
  by (auto simp: prepareVolumeSource_def quiet_def split: option.splits)

lemma prepareVolumes_quiet:
  "prepareVolumes env i vs = (r, evs) \<Longrightarrow> e \<in> set evs \<Longrightarrow> quiet e"
proof (induction vs arbitrary: i r evs)
  case Nil
  then show ?case by simp
next
  case (Cons v vs)
  obtain r1 evs1 where pv: "prepareVolumeSource env i v = (r1, evs1)"
    by (cases "prepareVolumeSource env i v") auto
  show ?case
  proof (cases r1)
    case (Some err)
    with pv Cons.prems have "evs = evs1" by simp
    with Cons.prems(2) prepareVolumeSource_quiet [OF pv] show ?thesis by simp
  next
    case None
    obtain r' evs' where rec: "prepareVolumes env (Suc i) vs = (r', evs')"
      by (cases "prepareVolumes env (Suc i) vs") auto
    with None pv Cons.prems have "evs = evs1 @ evs'" by simp
    with Cons.prems(2) prepareVolumeSource_quiet [OF pv] Cons.IH [OF rec] show ?thesis by auto
  qed
qed

lemma populateAll_quiet:
  "populateAll h env i ss = (r, deps, evs) \<Longrightarrow> e \<in> set evs \<Longrightarrow> quiet e"
proof (induction ss arbitrary: i r deps evs)
  case Nil
  then show ?case by simp
next
  case (Cons s ss)
  show ?case
  proof (cases "ImageDependencies s \<noteq> []")
    case False
    with Cons.prems have "populateAll h env (Suc i) ss = (r, deps, evs)" by simp
    from Cons.IH [OF this Cons.prems(2)] show ?thesis .
  next
    case True
    show ?thesis
    proof (cases "populateDigestsResult env i")
      case (Some err)
      with True Cons.prems show ?thesis by (auto simp: quiet_def Let_def)
    next
      case None
      obtain r' deps' evs' where rec: "populateAll h env (Suc i) ss = (r', deps', evs')"
        by (cases "populateAll h env (Suc i) ss") auto
      with None True Cons.prems have "\<exists>u. evs = PopulateDigests (ID s) u # evs'"
        by (auto simp: Let_def)
      with Cons.prems(2) Cons.IH [OF rec] show ?thesis by (auto simp: quiet_def)
    qed
  qed
qed

lemma report_quiet:
  assumes "report h env task = (r, evs)" "e \<in> set evs"
  shows "quiet e"
proof -
  obtain r1 deps1 evs1 where pa: "populateAll h env 0 (workersLeave env (Steps task)) = (r1, deps1, evs1)"
    by (cases "populateAll h env 0 (workersLeave env (Steps task))") auto
  with assms(1) have "evs = evs1"
    by (auto simp: report_def split: option.splits if_splits)
  with assms(2) populateAll_quiet [OF pa] show ?thesis by simp
qed

lemma spawnChildren_quiet: "e \<in> set (spawnChildren n cs) \<Longrightarrow> quiet e"
  by (auto simp: spawnChildren_def quiet_def)


lemma execute_buildkit [simp]:
  "execute h (env\<lparr>buildkitResult := x\<rparr>) task = execute h env task"
  by (auto simp: execute_def Let_def split: prod.splits option.splits barrier_result.splits)

lemma execute_quiet:
  assumes "execute h env task = (r, evs)" "e \<in> set evs"
  shows "quiet e"
proof -
  obtain r1 evs1 where pv: "prepareVolumes env 0 (Volumes task) = (r1, evs1)"
    by (cases "prepareVolumes env 0 (Volumes task)") auto
  obtain r2 evs2 where rp: "report h env task = (r2, evs2)"
    by (cases "report h env task") auto
  from assms(1) pv rp have "set evs \<subseteq> set evs1 \<union> set (spawnChildren (Root task) (RootChildren task)) \<union> set evs2"
    by (auto simp: execute_def Let_def split: option.splits barrier_result.splits)
  with assms(2) prepareVolumes_quiet [OF pv] report_quiet [OF rp] spawnChildren_quiet
  show ?thesis by blast
qed

text \<open>
  Claim C9. If the initialisation of the buildkitd container (the \<^verbatim>\<open>RunRepeatWithRetries\<close>
  call that runs \<^verbatim>\<open>buildx create --use\<close>) returns an error, \<^verbatim>\<open>RunTask\<close> only logs the error
  and continues with the volumes and the steps: it returns what it returns when the
  initialisation succeeds, and its events are the same but for the log line.
\<close>

theorem RunTask_buildkit_error_logged:
  assumes pr: "prepare h env task = (None, evs)"
    and init: "InitBuildkitContainer task"
    and ex: "execute h env task = (r, evs')"
  shows "RunTask h b (env\<lparr>buildkitResult := Some err\<rparr>) task =
           (r, evs @ [buildkitInit h b,
                      Log (''buildx create --use failed with error: '' @ [CHR 0x27] @ ''%v'' @ [CHR 0x27])
                        [err]] @ evs')
       \<and> RunTask h b (env\<lparr>buildkitResult := None\<rparr>) task = (r, evs @ [buildkitInit h b] @ evs')"
  using assms by (simp add: RunTask_def initBuildkit_def)

theorem RunTask_buildkit_error_logged_witness:
  "prepare exampleHelpers (quietEnv\<lparr>selects := [Completed]\<rparr>) cacheTask = (None, [SetupConfig])
   \<and> InitBuildkitContainer cacheTask
   \<and> execute exampleHelpers (quietEnv\<lparr>selects := [Completed]\<rparr>) cacheTask =
       (Some None, [CreateSecretFiles ''secrets'', PopulateSecretVolume ''secrets'', Go ''root'' ''a''])
   \<and> RunTask exampleHelpers exampleBuilder
         (quietEnv\<lparr>selects := [Completed], buildkitResult := Some ''exit status 125''\<rparr>) cacheTask =
       (Some None,
        [SetupConfig, buildkitInit exampleHelpers exampleBuilder,
         Log (''buildx create --use failed with error: '' @ [CHR 0x27] @ ''%v'' @ [CHR 0x27])
           [''exit status 125''],
         CreateSecretFiles ''secrets'', PopulateSecretVolume ''secrets'', Go ''root'' ''a''])"
proof -
  have pr: "prepare exampleHelpers (quietEnv\<lparr>selects := [Completed]\<rparr>) cacheTask = (None, [SetupConfig])"
    by code_simp
  have init: "InitBuildkitContainer cacheTask" by (simp add: cacheTask_def)
  have ex: "execute exampleHelpers (quietEnv\<lparr>selects := [Completed]\<rparr>) cacheTask =
       (Some None, [CreateSecretFiles ''secrets'', PopulateSecretVolume ''secrets'', Go ''root'' ''a''])"
    by code_simp
  from RunTask_buildkit_error_logged [OF pr init ex, of exampleBuilder "''exit status 125''"] pr init ex
  show ?thesis by simp
qed

lemma filter_quiet:
  assumes "\<And>e. e \<in> set evs \<Longrightarrow> quiet e"
  shows "filter (\<lambda>e. e = buildkitInit h b) evs = []"
proof -
  have "\<not> quiet (buildkitInit h b)" by (simp add: quiet_def buildkitInit_def)
  with assms show ?thesis by (auto simp: filter_empty_conv)
qed

lemma initBuildkit_count:
  "length (filter (\<lambda>e. e = buildkitInit h b) (initBuildkit h b env task)) =
     (if InitBuildkitContainer task then 1 else 0)"
  by (auto simp: initBuildkit_def buildkitInit_def split: option.splits)

lemma RunTask_count:
  "length (filter (\<lambda>e. e = buildkitInit h b) (snd (RunTask h b env task))) =
     (if InitBuildkitContainer task \<and> fst (prepare h env task) = None then 1 else 0)"
proof -
  obtain r1 evs1 where pr: "prepare h env task = (r1, evs1)"
    by (cases "prepare h env task") auto
  obtain r2 evs2 where ex: "execute h env task = (r2, evs2)"
    by (cases "execute h env task") auto
  have f1: "filter (\<lambda>e. e = buildkitInit h b) evs1 = []"
    using prepare_quiet [OF pr] by (intro filter_quiet) 
  have f2: "filter (\<lambda>e. e = buildkitInit h b) evs2 = []"
    using execute_quiet [OF ex] by (intro filter_quiet)
  show ?thesis
  proof (cases r1)
    case (Some err)
    with pr f1 show ?thesis by (simp add: RunTask_def)
  next
    case None
    with pr ex f1 f2 initBuildkit_count [of h b env task] show ?thesis
      by (simp add: RunTask_def)
  qed
qed

text \<open>
  Claim C6, as the code has it. Each call of \<^verbatim>\<open>RunTask\<close> executes the initialisation of the
  buildkitd container at most once: exactly once when the task asks for it and the networks,
  the configuration and the registry logins have succeeded, and not at all otherwise. No
  latch guards it, so successive calls in one process execute it once each.
\<close>

theorem RunTask_buildkit_init_per_call:
  "length (filter (\<lambda>e. e = buildkitInit h b) (snd (RunTask h b env task))) =
     (if InitBuildkitContainer task \<and> fst (prepare h env task) = None then 1 else 0)
   \<and> length (filter (\<lambda>e. e = buildkitInit h b) (RunTasks h b runs)) =
       length (filter (\<lambda>(env, task). InitBuildkitContainer task \<and> fst (prepare h env task) = None) runs)"
proof
  show "length (filter (\<lambda>e. e = buildkitInit h b) (snd (RunTask h b env task))) =
     (if InitBuildkitContainer task \<and> fst (prepare h env task) = None then 1 else 0)"
    by (rule RunTask_count)
  show "length (filter (\<lambda>e. e = buildkitInit h b) (RunTasks h b runs)) =
       length (filter (\<lambda>(env, task). InitBuildkitContainer task \<and> fst (prepare h env task) = None) runs)"
  proof (induction runs)
    case Nil
    then show ?case by (simp add: RunTasks_def)
  next
    case (Cons x runs)
    obtain env task where x: "x = (env, task)" by (cases x) auto
    from Cons show ?case using RunTask_count [of h b env task]
      by (simp add: RunTasks_def x)
  qed
qed

theorem RunTask_buildkit_init_per_call_witness:
  "length (filter (\<lambda>e. e = buildkitInit exampleHelpers exampleBuilder)
     (snd (RunTask exampleHelpers exampleBuilder quietEnv cacheTask))) = 1
   \<and> length (filter (\<lambda>e. e = buildkitInit exampleHelpers exampleBuilder)
     (RunTasks exampleHelpers exampleBuilder
        [(quietEnv, cacheTask), (quietEnv, cacheTask\<lparr>InitBuildkitContainer := False\<rparr>),
         (quietEnv\<lparr>setupConfigResult := Some ''timeout''\<rparr>, cacheTask)])) = 1"
proof -
  have a: "InitBuildkitContainer cacheTask \<and> fst (prepare exampleHelpers quietEnv cacheTask) = None"
    by code_simp
  have b: "length (filter (\<lambda>(env, task). InitBuildkitContainer task \<and> fst (prepare exampleHelpers env task) = None)
        [(quietEnv, cacheTask), (quietEnv, cacheTask\<lparr>InitBuildkitContainer := False\<rparr>),
         (quietEnv\<lparr>setupConfigResult := Some ''timeout''\<rparr>, cacheTask)]) = 1"
    by code_simp
  from RunTask_buildkit_init_per_call [of exampleHelpers exampleBuilder quietEnv cacheTask
      "[(quietEnv, cacheTask), (quietEnv, cacheTask\<lparr>InitBuildkitContainer := False\<rparr>),
         (quietEnv\<lparr>setupConfigResult := Some ''timeout''\<rparr>, cacheTask)]"] a b
  show ?thesis by simp
qed

text \<open>
  Two calls of \<^verbatim>\<open>RunTask\<close> on a task that asks for the build cache, each of which passes
  the barrier: the initialisation is executed twice.
\<close>

theorem buildkit_init_once_counterexample:
  "count_list
     (RunTasks exampleHelpers exampleBuilder
        [(quietEnv\<lparr>selects := [Completed]\<rparr>, cacheTask),
         (quietEnv\<lparr>selects := [Completed]\<rparr>, cacheTask)])
     (buildkitInit exampleHelpers exampleBuilder) = 2
   \<and> fst (RunTask exampleHelpers exampleBuilder (quietEnv\<lparr>selects := [Completed]\<rparr>) cacheTask) = Some None"
  by code_simp

section \<open>Properties of the barrier and of a run\<close>

subsection \<open>The barrier\<close>

lemma barrier_Waiting:
  "barrier chans sel = Waiting \<Longrightarrow> sel = replicate (length sel) Completed \<and> length sel < length chans"
  by (induction chans sel rule: barrier.induct) auto

lemma barrier_AllCompleted:
  "barrier chans sel = AllCompleted \<Longrightarrow>
     take (length chans) sel = replicate (length chans) Completed \<and> length chans \<le> length sel"
  by (induction chans sel rule: barrier.induct) auto

lemma barrier_first_other:
  "k < length chans \<Longrightarrow>
   barrier chans (replicate k Completed @ CtxDone err # rest) = Return err \<and>
   barrier chans (replicate k Completed @ StepError err # rest) = Return err"
proof (induction chans arbitrary: k)
  case Nil
  then show ?case by simp
next
  case (Cons ch chs)
  then show ?case by (cases k) auto
qed

lemma barrier_no_selects: "barrier chans [] = (if chans = [] then AllCompleted else Waiting)"
  by (cases chans) auto

lemma barrier_snoc:
  "barrier chans sel = Waiting \<Longrightarrow>
     barrier chans (sel @ [CtxDone err]) = Return err \<and>
     barrier chans (sel @ [StepError err]) = Return err \<and>
     barrier chans (sel @ [Completed]) \<noteq> Return err'"
  by (induction chans sel rule: barrier.induct) (auto simp: barrier_no_selects)


subsection \<open>Traces of a worker\<close>

lemma orderly_append:
  "orderly seen (xs @ ys) = (orderly seen xs \<and> orderly (seen @ xs) ys)"
  by (induction xs arbitrary: seen) auto

lemma orderly_no_completion:
  "\<forall>e\<in>set xs. \<not> isCompletion e \<Longrightarrow> orderly seen xs"
proof (induction xs arbitrary: seen)
  case Nil
  then show ?case by simp
next
  case (Cons e xs)
  then have "licensed seen e" by (cases e) auto
  with Cons show ?case by simp
qed

lemma processVertex_orderly:
  "orderly [] (snd (snd (processVertex h b env parent child)))"
proof (cases "removeEdgeResult env")
  case (Some err)
  then show ?thesis by (simp add: processVertex_def)
next
  case None
  show ?thesis
  proof (cases "degree env = 0")
    case False
    with None show ?thesis by (simp add: processVertex_def)
  next
    case True
    obtain err step once evs where
      rs: "runStep h b (stepEnv env) (onceDone env) (Value child) = (err, step, once, evs)"
      by (cases "runStep h b (stepEnv env) (onceDone env) (Value child)") auto
    have calls: "\<forall>e\<in>set evs. \<not> isWorkerOp e" using runStep_calls [OF rs] .
    have nc: "\<forall>e\<in>set evs. \<not> isCompletion e"
    proof
      fix e assume "e \<in> set evs"
      with calls have "\<not> isWorkerOp e" by blast
      then show "\<not> isCompletion e" by (cases e) auto
    qed
    have ng: "\<forall>e\<in>set (spawnChildren child (children env)). \<not> isCompletion e"
      by (auto simp: spawnChildren_def)
    have o1: "orderly [] evs" using nc by (rule orderly_no_completion)
    show ?thesis
    proof (cases err)
      case none: None
      have "orderly ([] @ evs) [SetStatus (ID step) Successful]" by simp
      moreover have "orderly (([] @ evs) @ [SetStatus (ID step) Successful])
          (spawnChildren child (children env))"
        using ng by (rule orderly_no_completion)
      moreover have "orderly ((([] @ evs) @ [SetStatus (ID step) Successful]) @
          spawnChildren child (children env)) [SendCompleted (ID step)]"
        by simp
      ultimately show ?thesis
        unfolding processVertex_succeeded [OF None True rs [unfolded none]] snd_conv orderly_append
        using o1 by blast
    next
      case some: (Some e)
      show ?thesis
      proof (cases "IgnoreErrors step")
        case ign: True
        let ?log = "Log ''Step ID: %s encountered an error: %v, but is set to ignore errors. Continuing...'' [ID step, e]"
        have "orderly ([] @ evs) [?log, SetStatus (ID step) Successful]" by simp
        moreover have "orderly (([] @ evs) @ [?log, SetStatus (ID step) Successful])
            (spawnChildren child (children env))"
          using ng by (rule orderly_no_completion)
        moreover have "orderly ((([] @ evs) @ [?log, SetStatus (ID step) Successful]) @
            spawnChildren child (children env)) [SendCompleted (ID step)]"
          by simp
        ultimately show ?thesis
          unfolding processVertex_ignored [OF None True rs [unfolded some] ign] snd_conv orderly_append
          using o1 by blast
      next
        case nign: False
        have "orderly ([] @ evs) [SetStatus (ID step) Failed,
                   SendError (Wrap e (''failed to run step ID: '' @ ID step)),
                   SendCompleted (ID step)]"
          by simp
        then show ?thesis
          unfolding processVertex_failed [OF None True rs [unfolded some] nign] snd_conv orderly_append
          using o1 by blast
      qed
    qed
  qed
qed

lemma orderly_licensed:
  "orderly seen xs \<Longrightarrow> SendCompleted n \<in> set xs \<Longrightarrow>
     SetStatus n Successful \<in> set (seen @ xs) \<or> list_ex isSendError (seen @ xs)"
proof (induction xs arbitrary: seen)
  case Nil
  then show ?case by simp
next
  case (Cons e xs)
  show ?case
  proof (cases "e = SendCompleted n")
    case True
    with Cons.prems(1) show ?thesis by auto
  next
    case False
    with Cons.prems have "orderly (seen @ [e]) xs" "SendCompleted n \<in> set xs" by auto
    from Cons.IH [OF this] show ?thesis by simp
  qed
qed

subsection \<open>Runs of the goroutines\<close>

lemma list_ex_update:
  assumes il: "i < length xs" and py: "P y = (P (xs ! i) \<or> Q)"
  shows "list_ex P (xs[i := y]) = (list_ex P xs \<or> Q)"
proof
  assume "list_ex P (xs[i := y])"
  then obtain x where x: "x \<in> set (xs[i := y])" "P x" by (auto simp: list_ex_iff)
  from x(1) set_update_subset_insert [of xs i y] have "x = y \<or> x \<in> set xs" by blast
  then show "list_ex P xs \<or> Q"
  proof
    assume "x = y"
    with x(2) py have "P (xs ! i) \<or> Q" by simp
    with il show ?thesis by (auto simp: list_ex_iff)
  next
    assume "x \<in> set xs"
    with x(2) show ?thesis by (auto simp: list_ex_iff)
  qed
next
  assume "list_ex P xs \<or> Q"
  then show "list_ex P (xs[i := y])"
  proof
    assume "list_ex P xs"
    then obtain j where j: "j < length xs" "P (xs ! j)"
      by (auto simp: list_ex_iff in_set_conv_nth)
    show ?thesis
    proof (cases "j = i")
      case True
      with j py have "P y" by simp
      moreover have "y \<in> set (xs[i := y])" using il by (rule set_update_memI)
      ultimately show ?thesis by (auto simp: list_ex_iff)
    next
      case False
      with j have "(xs[i := y]) ! j = xs ! j" "j < length (xs[i := y])" by simp_all
      with j(2) have "P ((xs[i := y]) ! j)" by simp
      with \<open>j < length (xs[i := y])\<close> show ?thesis
        unfolding list_ex_iff by (meson nth_mem)
    qed
  next
    assume Q
    with py have "P y" by simp
    moreover have "y \<in> set (xs[i := y])" using il by (rule set_update_memI)
    ultimately show ?thesis by (auto simp: list_ex_iff)
  qed
qed

lemma list_all_update:
  assumes "list_all P xs" "P y"
  shows "list_all P (xs[i := y])"
  using assms set_update_subset_insert [of xs i y] by (auto simp: list_all_iff)

lemma nextEvent_Some:
  "nextEvent i c = Some e \<Longrightarrow>
     i < length (workers c) \<and> (\<exists>es. todo (workers c ! i) = e # es)"
  by (auto simp: nextEvent_def split: if_splits list.splits)

lemma advance_passed:
  "todo w = e # es \<Longrightarrow> passed (advance w) = passed w @ [e] \<and> todo (advance w) = es"
  by (simp add: advance_def)

lemma passEvent_fields [simp]:
  "taken (passEvent i c) = taken c" "buffered (passEvent i c) = buffered c"
  "workers (passEvent i c) = (workers c)[i := advance (workers c ! i)]"
  by (simp_all add: passEvent_def)

lemma sent_passEvent:
  assumes "nextEvent i c = Some e"
  shows "sent (passEvent i c) n = (sent c n \<or> e = SendCompleted n)"
proof -
  from nextEvent_Some [OF assms] obtain es where
    il: "i < length (workers c)" and td: "todo (workers c ! i) = e # es" by blast
  show ?thesis unfolding sent_def passEvent_fields
    by (rule list_ex_update [OF il]) (use advance_passed [OF td] in auto)
qed

lemma errorPosted_passEvent:
  assumes "nextEvent i c = Some e"
  shows "errorPosted (passEvent i c) = (errorPosted c \<or> isSendError e)"
proof -
  from nextEvent_Some [OF assms] obtain es where
    il: "i < length (workers c)" and td: "todo (workers c ! i) = e # es" by blast
  show ?thesis unfolding errorPosted_def passEvent_fields
    by (rule list_ex_update [OF il]) (use advance_passed [OF td] in auto)
qed

lemma orderly_passEvent:
  assumes "nextEvent i c = Some e"
    and "list_all (\<lambda>w. orderly [] (passed w @ todo w)) (workers c)"
  shows "list_all (\<lambda>w. orderly [] (passed w @ todo w)) (workers (passEvent i c))"
proof -
  from nextEvent_Some [OF assms(1)] obtain es where
    il: "i < length (workers c)" and td: "todo (workers c ! i) = e # es" by blast
  from assms(2) il have "orderly [] (passed (workers c ! i) @ todo (workers c ! i))"
    by (simp add: list_all_length)
  with td advance_passed [OF td]
  have "orderly [] (passed (advance (workers c ! i)) @ todo (advance (workers c ! i)))"
    by simp
  with assms(2) show ?thesis unfolding passEvent_fields by (rule list_all_update)
qed

lemma sent_fields [simp]:
  "sent (c\<lparr>taken := t\<rparr>) n = sent c n" "sent (c\<lparr>buffered := f\<rparr>) n = sent c n"
  by (simp_all add: sent_def)

lemma errorPosted_fields [simp]:
  "errorPosted (c\<lparr>taken := t\<rparr>) = errorPosted c" "errorPosted (c\<lparr>buffered := f\<rparr>) = errorPosted c"
  by (simp_all add: errorPosted_def)

lemma received_fields [simp]:
  "received chans (c\<lparr>buffered := f\<rparr>) = received chans c"
  "received chans (c\<lparr>workers := ws\<rparr>) = received chans c"
  "received chans (passEvent i c) = received chans c"
  by (simp_all add: received_def)

lemma spawn_sent [simp]:
  "sent (c\<lparr>workers := workers c @ [startWorker h b env parent child]\<rparr>) n = sent c n"
  by (simp add: sent_def startWorker_def)

lemma spawn_errorPosted [simp]:
  "errorPosted (c\<lparr>workers := workers c @ [startWorker h b env parent child]\<rparr>) = errorPosted c"
  by (simp add: errorPosted_def startWorker_def)

lemma barrier_Waiting_filter:
  "barrier chans sel = Waiting \<Longrightarrow>
     filter (\<lambda>s. s = Completed) sel = sel \<and> length sel < length chans"
  by (induction chans sel rule: barrier.induct) auto

lemma barrier_AllCompleted_filter:
  "barrier chans sel = AllCompleted \<Longrightarrow> length chans \<le> length (filter (\<lambda>s. s = Completed) sel)"
  by (induction chans sel rule: barrier.induct) auto

lemma received_Completed:
  assumes "awaited chans c = Some n"
  shows "received chans (c\<lparr>taken := taken c @ [Completed]\<rparr>) = received chans c @ [n]"
proof -
  from assms have w: "barrier chans (taken c) = Waiting" and l: "length (taken c) < length chans"
    and n: "n = chans ! length (taken c)"
    by (auto simp: awaited_def split: if_splits)
  from barrier_Waiting_filter [OF w] have "filter (\<lambda>s. s = Completed) (taken c) = taken c"
    by simp
  then show ?thesis using l n by (simp add: received_def take_Suc_conv_app_nth)
qed

lemma received_other:
  "s \<noteq> Completed \<Longrightarrow> received chans (c\<lparr>taken := taken c @ [s]\<rparr>) = received chans c"
  by (simp add: received_def)

lemma steadyI:
  assumes "list_all (\<lambda>w. orderly [] (passed w @ todo w)) (workers c)"
    and "errorPosted c \<Longrightarrow> barrier chans (taken c) \<noteq> Waiting \<and> barrier chans (taken c) \<noteq> AllCompleted"
    and "\<And>n. 0 < buffered c n \<or> n \<in> set (received chans c) \<Longrightarrow> sent c n"
  shows "steady chans c"
  using assms by (simp add: steady_def)

lemma steady_orderly:
  "steady chans c \<Longrightarrow> list_all (\<lambda>w. orderly [] (passed w @ todo w)) (workers c)"
  by (simp add: steady_def)

lemma steady_error:
  "steady chans c \<Longrightarrow> errorPosted c \<Longrightarrow>
     barrier chans (taken c) \<noteq> Waiting \<and> barrier chans (taken c) \<noteq> AllCompleted"
  by (simp add: steady_def split: if_splits)

lemma steady_sent:
  assumes "steady chans c" "0 < buffered c n \<or> n \<in> set (received chans c)"
  shows "sent c n"
proof -
  from assms(1) have "\<forall>n. (if 0 < buffered c n \<or> n \<in> set (received chans c) then sent c n else True)"
    by (simp add: steady_def)
  then have "if 0 < buffered c n \<or> n \<in> set (received chans c) then sent c n else True" ..
  with assms(2) show ?thesis by simp
qed

lemma awaited_Waiting: "awaited chans c = Some n \<Longrightarrow> barrier chans (taken c) = Waiting"
  by (simp add: awaited_def split: if_splits)

lemma awaited_passEvent [simp]: "awaited chans (passEvent i c) = awaited chans c"
  by (simp add: awaited_def)

lemma steady_Local:
  assumes st: "steady chans c" and ne: "nextEvent i c = Some e" and loc: "isLocal e"
  shows "steady chans (passEvent i c)"
proof (rule steadyI)
  show "list_all (\<lambda>w. orderly [] (passed w @ todo w)) (workers (passEvent i c))"
    using ne steady_orderly [OF st] by (rule orderly_passEvent)
next
  from loc have "\<not> isSendError e" by (cases e) auto
  moreover assume "errorPosted (passEvent i c)"
  ultimately have "errorPosted c" by (simp add: errorPosted_passEvent [OF ne])
  from steady_error [OF st this]
  show "barrier chans (taken (passEvent i c)) \<noteq> Waiting \<and>
        barrier chans (taken (passEvent i c)) \<noteq> AllCompleted" by simp
next
  fix n assume "0 < buffered (passEvent i c) n \<or> n \<in> set (received chans (passEvent i c))"
  then have "sent c n" using steady_sent [OF st, of n] by simp
  then show "sent (passEvent i c) n" by (simp add: sent_passEvent [OF ne])
qed

lemma steady_Spawn:
  assumes st: "steady chans c" and ne: "nextEvent i c = Some (Go p n)"
  shows "steady chans ((passEvent i c)\<lparr>workers := workers (passEvent i c) @
                                              [startWorker h b env parent child]\<rparr>)"
    (is "steady chans ?c'")
proof (rule steadyI)
  have "list_all (\<lambda>w. orderly [] (passed w @ todo w)) (workers (passEvent i c))"
    using ne steady_orderly [OF st] by (rule orderly_passEvent)
  moreover have "orderly [] (passed (startWorker h b env parent child) @
                             todo (startWorker h b env parent child))"
    by (simp add: startWorker_def processVertex_orderly)
  ultimately show "list_all (\<lambda>w. orderly [] (passed w @ todo w)) (workers ?c')"
    by simp
next
  assume "errorPosted ?c'"
  then have "errorPosted (passEvent i c)" by (simp only: spawn_errorPosted)
  then have "errorPosted c" by (simp add: errorPosted_passEvent [OF ne])
  from steady_error [OF st this]
  show "barrier chans (taken ?c') \<noteq> Waiting \<and> barrier chans (taken ?c') \<noteq> AllCompleted"
    by simp
next
  fix m assume "0 < buffered ?c' m \<or> m \<in> set (received chans ?c')"
  then have "sent c m" using steady_sent [OF st, of m] by simp
  then have "sent (passEvent i c) m" by (simp add: sent_passEvent [OF ne])
  then show "sent ?c' m" by (simp only: spawn_sent)
qed

lemma steady_PostError:
  assumes st: "steady chans c" and ne: "nextEvent i c = Some (SendError err)"
    and w: "barrier chans (taken c) = Waiting"
  shows "steady chans ((passEvent i c)\<lparr>taken := taken c @ [StepError err]\<rparr>)"
    (is "steady chans ?c'")
proof (rule steadyI)
  have "list_all (\<lambda>w. orderly [] (passed w @ todo w)) (workers (passEvent i c))"
    using ne steady_orderly [OF st] by (rule orderly_passEvent)
  then show "list_all (\<lambda>w. orderly [] (passed w @ todo w)) (workers ?c')" by simp
next
  from barrier_snoc [OF w, of err] have "barrier chans (taken c @ [StepError err]) = Return err"
    by simp
  then show "barrier chans (taken ?c') \<noteq> Waiting \<and> barrier chans (taken ?c') \<noteq> AllCompleted"
    by simp
next
  fix m assume a: "0 < buffered ?c' m \<or> m \<in> set (received chans ?c')"
  have "received chans ?c' = received chans c" by (simp add: received_def)
  with a have "sent c m" using steady_sent [OF st, of m] by simp
  then show "sent ?c' m" by (simp add: sent_passEvent [OF ne])
qed

lemma steady_Deliver:
  assumes st: "steady chans c" and ne: "nextEvent i c = Some (SendCompleted n)"
    and aw: "awaited chans c = Some n"
  shows "steady chans ((passEvent i c)\<lparr>taken := taken c @ [Completed]\<rparr>)"
    (is "steady chans ?c'")
proof (rule steadyI)
  have "list_all (\<lambda>w. orderly [] (passed w @ todo w)) (workers (passEvent i c))"
    using ne steady_orderly [OF st] by (rule orderly_passEvent)
  then show "list_all (\<lambda>w. orderly [] (passed w @ todo w)) (workers ?c')" by simp
next
  assume "errorPosted ?c'"
  then have "errorPosted c" by (simp add: errorPosted_passEvent [OF ne])
  from steady_error [OF st this] awaited_Waiting [OF aw]
  show "barrier chans (taken ?c') \<noteq> Waiting \<and> barrier chans (taken ?c') \<noteq> AllCompleted"
    by simp
next
  fix m assume a: "0 < buffered ?c' m \<or> m \<in> set (received chans ?c')"
  have "received chans ?c' = received chans (c\<lparr>taken := taken c @ [Completed]\<rparr>)"
    by (simp add: received_def)
  then have "received chans ?c' = received chans c @ [n]"
    by (simp add: received_Completed [OF aw])
  with a have "sent c m \<or> m = n" using steady_sent [OF st, of m] by auto
  then show "sent ?c' m" by (auto simp: sent_passEvent [OF ne])
qed

lemma steady_Buffer:
  assumes st: "steady chans c" and ne: "nextEvent i c = Some (SendCompleted n)"
  shows "steady chans ((passEvent i c)\<lparr>buffered := (buffered c)(n := Suc (buffered c n))\<rparr>)"
    (is "steady chans ?c'")
proof (rule steadyI)
  have "list_all (\<lambda>w. orderly [] (passed w @ todo w)) (workers (passEvent i c))"
    using ne steady_orderly [OF st] by (rule orderly_passEvent)
  then show "list_all (\<lambda>w. orderly [] (passed w @ todo w)) (workers ?c')" by simp
next
  assume "errorPosted ?c'"
  then have "errorPosted c" by (simp add: errorPosted_passEvent [OF ne])
  from steady_error [OF st this]
  show "barrier chans (taken ?c') \<noteq> Waiting \<and> barrier chans (taken ?c') \<noteq> AllCompleted"
    by simp
next
  fix m assume a: "0 < buffered ?c' m \<or> m \<in> set (received chans ?c')"
  then have "m = n \<or> 0 < buffered c m \<or> m \<in> set (received chans c)"
    by (auto split: if_splits)
  then have "sent c m \<or> m = n" using steady_sent [OF st, of m] by auto
  then show "sent ?c' m" by (auto simp: sent_passEvent [OF ne])
qed

lemma steady_Receive:
  assumes st: "steady chans c" and aw: "awaited chans c = Some n" and bf: "0 < buffered c n"
  shows "steady chans (c\<lparr>taken := taken c @ [Completed],
                       buffered := (buffered c)(n := buffered c n - 1)\<rparr>)"
    (is "steady chans ?c'")
proof (rule steadyI)
  show "list_all (\<lambda>w. orderly [] (passed w @ todo w)) (workers ?c')"
    using steady_orderly [OF st] by simp
next
  assume "errorPosted ?c'"
  then have "errorPosted c" by simp
  from steady_error [OF st this] awaited_Waiting [OF aw]
  show "barrier chans (taken ?c') \<noteq> Waiting \<and> barrier chans (taken ?c') \<noteq> AllCompleted"
    by simp
next
  fix m assume a: "0 < buffered ?c' m \<or> m \<in> set (received chans ?c')"
  have "received chans ?c' = received chans (c\<lparr>taken := taken c @ [Completed]\<rparr>)"
    by (simp add: received_def)
  then have "received chans ?c' = received chans c @ [n]"
    by (simp add: received_Completed [OF aw])
  with a have "0 < buffered c m \<or> m \<in> set (received chans c) \<or> m = n"
    by (auto split: if_splits)
  with bf have "sent c m" using steady_sent [OF st, of m] by auto
  then show "sent ?c' m" by simp
qed

lemma steady_Cancel:
  assumes st: "steady chans c" and w: "barrier chans (taken c) = Waiting"
  shows "steady chans (c\<lparr>taken := taken c @ [CtxDone err]\<rparr>)" (is "steady chans ?c'")
proof (rule steadyI)
  show "list_all (\<lambda>w. orderly [] (passed w @ todo w)) (workers ?c')"
    using steady_orderly [OF st] by simp
next
  assume "errorPosted ?c'"
  then have "errorPosted c" by simp
  from steady_error [OF st this] w
  show "barrier chans (taken ?c') \<noteq> Waiting \<and> barrier chans (taken ?c') \<noteq> AllCompleted"
    by simp
next
  fix m assume a: "0 < buffered ?c' m \<or> m \<in> set (received chans ?c')"
  have "received chans ?c' = received chans c" by (simp add: received_def)
  with a show "sent ?c' m" using steady_sent [OF st, of m] by simp
qed

lemma steady_makeMove:
  assumes st: "steady chans c" and mv: "makeMove h b cap chans m c = Some c'"
  shows "steady chans c'"
proof (cases m)
  case (Local i)
  with mv obtain e where "nextEvent i c = Some e" "isLocal e" "c' = passEvent i c"
    by (auto split: option.splits if_splits)
  with st show ?thesis by (simp add: steady_Local)
next
  case (Spawn i env parent child)
  with mv obtain p n where "nextEvent i c = Some (Go p n)"
    "c' = (passEvent i c)\<lparr>workers := workers (passEvent i c) @ [startWorker h b env parent child]\<rparr>"
    by (auto split: option.splits event.splits if_splits)
  with st show ?thesis by (simp only: steady_Spawn)
next
  case (PostError i)
  with mv obtain err where "nextEvent i c = Some (SendError err)"
    "barrier chans (taken c) = Waiting"
    "c' = (passEvent i c)\<lparr>taken := taken c @ [StepError err]\<rparr>"
    by (auto split: option.splits event.splits if_splits)
  with st show ?thesis by (simp only: steady_PostError)
next
  case (Deliver i)
  with mv obtain n where "nextEvent i c = Some (SendCompleted n)"
    "awaited chans c = Some n"
    "c' = (passEvent i c)\<lparr>taken := taken c @ [Completed]\<rparr>"
    by (auto split: option.splits event.splits if_splits)
  with st show ?thesis by (simp only: steady_Deliver)
next
  case (Buffer i)
  with mv obtain n where "nextEvent i c = Some (SendCompleted n)"
    "c' = (passEvent i c)\<lparr>buffered := (buffered c)(n := Suc (buffered c n))\<rparr>"
    by (auto split: option.splits event.splits if_splits)
  with st show ?thesis by (simp only: steady_Buffer)
next
  case Receive
  with mv obtain n where "awaited chans c = Some n" "0 < buffered c n"
    "c' = c\<lparr>taken := taken c @ [Completed], buffered := (buffered c)(n := buffered c n - 1)\<rparr>"
    by (auto split: option.splits if_splits)
  with st show ?thesis by (simp only: steady_Receive)
next
  case (Cancel err)
  with mv have "barrier chans (taken c) = Waiting" "c' = c\<lparr>taken := taken c @ [CtxDone err]\<rparr>"
    by (auto split: if_splits)
  with st show ?thesis by (simp only: steady_Cancel)
qed

lemma steady_run:
  "steady chans c \<Longrightarrow> run h b cap chans ms c = Some c' \<Longrightarrow> steady chans c'"
proof (induction ms arbitrary: c)
  case Nil
  then show ?case by simp
next
  case (Cons m ms)
  from Cons.prems(2) obtain c1 where m: "makeMove h b cap chans m c = Some c1"
    and r: "run h b cap chans ms c1 = Some c'"
    by (auto split: option.splits)
  from steady_makeMove [OF Cons.prems(1) m] have "steady chans c1" .
  from Cons.IH [OF this r] show ?case .
qed

lemma steady_startTask: "steady chans (startTask h b task envs)"
proof (rule steadyI)
  show "list_all (\<lambda>w. orderly [] (passed w @ todo w)) (workers (startTask h b task envs))"
    by (simp add: startTask_def list_all_iff startWorker_def processVertex_orderly)
next
  assume "errorPosted (startTask h b task envs)"
  then have False by (simp add: errorPosted_def startTask_def list_ex_iff startWorker_def)
  then show "barrier chans (taken (startTask h b task envs)) \<noteq> Waiting \<and>
        barrier chans (taken (startTask h b task envs)) \<noteq> AllCompleted" ..
next
  fix n assume "0 < buffered (startTask h b task envs) n \<or>
                n \<in> set (received chans (startTask h b task envs))"
  then have False by (simp add: startTask_def received_def)
  then show "sent (startTask h b task envs) n" ..
qed

lemma steady_AllCompleted:
  assumes st: "steady chans c" and ac: "barrier chans (taken c) = AllCompleted"
    and n: "n \<in> set chans"
  shows "succeeded c n"
proof -
  from barrier_AllCompleted_filter [OF ac] have "received chans c = chans"
    by (simp add: received_def)
  with n steady_sent [OF st, of n] have "sent c n" by simp
  then obtain w where w: "w \<in> set (workers c)" "SendCompleted n \<in> set (passed w)"
    by (auto simp: sent_def list_ex_iff)
  have ne: "\<not> errorPosted c" using steady_error [OF st] ac by auto
  with w(1) have nerr: "\<not> list_ex isSendError (passed w)"
    by (auto simp: errorPosted_def list_ex_iff)
  from steady_orderly [OF st] w(1) have "orderly [] (passed w @ todo w)"
    by (simp add: list_all_iff)
  then have "orderly [] (passed w)" by (simp add: orderly_append)
  from orderly_licensed [OF this w(2)] nerr have "SetStatus n Successful \<in> set (passed w)"
    by simp
  with w nerr show ?thesis by (auto simp: succeeded_def list_ex_iff)
qed

subsection \<open>The barrier and the workers together\<close>

lemma RunTask_at_barrier:
  assumes "entersBarrier h env task"
  shows "fst (RunTask h b env task) =
     (case barrier (completedChans task) (selects env) of
        Return err \<Rightarrow> Some (Some err)
      | Waiting \<Rightarrow> None
      | AllCompleted \<Rightarrow> Some (fst (report h env task)))"
proof -
  obtain evs where pr: "prepare h env task = (None, evs)"
    using assms by (cases "prepare h env task") (auto simp: entersBarrier_def)
  obtain evs' where pv: "prepareVolumes env 0 (Volumes task) = (None, evs')"
    using assms by (cases "prepareVolumes env 0 (Volumes task)") (auto simp: entersBarrier_def)
  show ?thesis
    by (cases "barrier (completedChans task) (selects env)")
       (auto simp: RunTask_def execute_def pr pv Let_def split: prod.splits)
qed

lemma RunTask_nil:
  assumes "fst (RunTask h b env task) = Some None"
  shows "entersBarrier h env task \<and> barrier (completedChans task) (selects env) = AllCompleted"
proof -
  obtain r evs where pr: "prepare h env task = (r, evs)" by (cases "prepare h env task") auto
  obtain r' evs' where pv: "prepareVolumes env 0 (Volumes task) = (r', evs')"
    by (cases "prepareVolumes env 0 (Volumes task)") auto
  from assms pr have r: "r = None"
    by (cases r) (auto simp: RunTask_def)
  from assms pr pv r have r': "r' = None"
    by (cases r') (auto simp: RunTask_def execute_def split: prod.splits)
  from r r' pr pv have eb: "entersBarrier h env task" by (simp add: entersBarrier_def)
  from RunTask_at_barrier [OF eb, of b] assms
  have "barrier (completedChans task) (selects env) = AllCompleted"
    by (cases "barrier (completedChans task) (selects env)") auto
  with eb show ?thesis by simp
qed

subsection \<open>The signals that the barrier receives\<close>

lemma received_next:
  assumes "awaited chans c = Some n" and "taken c' = taken c @ [Completed]"
  shows "received chans c' = received chans c @ [n]"
proof -
  from assms(2) have "received chans c' = received chans (c\<lparr>taken := taken c @ [Completed]\<rparr>)"
    by (simp add: received_def)
  then show ?thesis by (simp add: received_Completed [OF assms(1)])
qed

lemma makeMove_received:
  assumes mv: "makeMove h b cap chans m c = Some c'"
  shows "received chans c' = received chans c @ handedOver chans m c"
proof (cases m)
  case (Local i)
  with mv obtain e where "nextEvent i c = Some e" "isLocal e" "c' = passEvent i c"
    by (auto split: option.splits if_splits)
  with Local show ?thesis by simp
next
  case (Spawn i env parent child)
  with mv obtain p n where "nextEvent i c = Some (Go p n)"
    "c' = (passEvent i c)\<lparr>workers := workers (passEvent i c) @ [startWorker h b env parent child]\<rparr>"
    by (auto split: option.splits event.splits if_splits)
  with Spawn show ?thesis by simp
next
  case (PostError i)
  with mv obtain err where "nextEvent i c = Some (SendError err)"
    "barrier chans (taken c) = Waiting"
    "c' = (passEvent i c)\<lparr>taken := taken c @ [StepError err]\<rparr>"
    by (auto split: option.splits event.splits if_splits)
  then have "received chans c' = received chans c" by (simp add: received_def)
  with PostError show ?thesis by simp
next
  case (Deliver i)
  with mv obtain n where ne: "nextEvent i c = Some (SendCompleted n)"
    and aw: "awaited chans c = Some n"
    and c': "c' = (passEvent i c)\<lparr>taken := taken c @ [Completed]\<rparr>"
    by (auto split: option.splits event.splits if_splits)
  from c' have "taken c' = taken c @ [Completed]" by simp
  from received_next [OF aw this] Deliver ne show ?thesis by simp
next
  case (Buffer i)
  with mv obtain n where "nextEvent i c = Some (SendCompleted n)"
    "c' = (passEvent i c)\<lparr>buffered := (buffered c)(n := Suc (buffered c n))\<rparr>"
    by (auto split: option.splits event.splits if_splits)
  with Buffer show ?thesis by simp
next
  case Receive
  with mv obtain n where aw: "awaited chans c = Some n" and "0 < buffered c n"
    and c': "c' = c\<lparr>taken := taken c @ [Completed], buffered := (buffered c)(n := buffered c n - 1)\<rparr>"
    by (auto split: option.splits if_splits)
  from c' have "taken c' = taken c @ [Completed]" by simp
  from received_next [OF aw this] Receive aw show ?thesis by simp
next
  case (Cancel err)
  with mv have "barrier chans (taken c) = Waiting" "c' = c\<lparr>taken := taken c @ [CtxDone err]\<rparr>"
    by (auto split: if_splits)
  then have "received chans c' = received chans c" by (simp add: received_def)
  with Cancel show ?thesis by simp
qed

lemma run_received:
  "run h b cap chans moves c = Some c' \<Longrightarrow>
     received chans c' = received chans c @ deliveries h b cap chans moves c"
proof (induction moves arbitrary: c)
  case Nil
  then show ?case by simp
next
  case (Cons m ms)
  from Cons.prems obtain c1 where m: "makeMove h b cap chans m c = Some c1"
    and r: "run h b cap chans ms c1 = Some c'"
    by (auto split: option.splits)
  from Cons.IH [OF r] makeMove_received [OF m] m show ?case by simp
qed

lemma deliveries_startTask:
  assumes "run h b cap chans moves (startTask h b task envs) = Some c"
  shows "deliveries h b cap chans moves (startTask h b task envs) = received chans c"
proof -
  have "received chans (startTask h b task envs) = []"
    by (simp add: received_def startTask_def)
  with run_received [OF assms] show ?thesis by simp
qed





lemma deliveries_AllCompleted:
  assumes r: "run h b cap chans moves (startTask h b task envs) = Some c"
    and ac: "barrier chans (taken c) = AllCompleted"
  shows "deliveries h b cap chans moves (startTask h b task envs) = chans"
proof -
  from barrier_AllCompleted_filter [OF ac] have "received chans c = chans"
    by (simp add: received_def)
  then show ?thesis by (simp add: deliveries_startTask [OF r])
qed

text \<open>
  The barrier of \<^verbatim>\<open>RunTask\<close>, over the nodes of the DAG. When a select of the barrier takes
  \<^verbatim>\<open>ctx.Done()\<close> while the signal of some node is still awaited, \<^verbatim>\<open>RunTask\<close> returns the error
  of the context; when it takes the error channel, \<^verbatim>\<open>RunTask\<close> returns that error, the first
  one posted, whatever the number of completion signals still missing; \<^verbatim>\<open>RunTask\<close> returns
  nil only after a select has taken a completion signal for every node; and in every run of
  the goroutines in which it returns nil, the barrier has received the signal of every node,
  in the order of the nodes, and for every node some worker that had set the step's status
  to \<open>Successful\<close> and that posted no error has sent the signal of the step.
\<close>

lemma RunTask_barrier_returns:
  "(entersBarrier h env task \<and> k < length (Nodes task) \<and>
      selects env = replicate k Completed @ CtxDone err # rest
      \<longrightarrow> fst (RunTask h b env task) = Some (Some err))
   \<and> (entersBarrier h env task \<and> k < length (Nodes task) \<and>
      selects env = replicate k Completed @ StepError err # rest
      \<longrightarrow> fst (RunTask h b env task) = Some (Some err))
   \<and> (fst (RunTask h b env task) = Some None
      \<longrightarrow> entersBarrier h env task \<and>
          length (Nodes task) \<le> length (selects env) \<and>
          take (length (Nodes task)) (selects env) = replicate (length (Nodes task)) Completed)
   \<and> (fst (RunTask h b env task) = Some None \<and>
      run h b cap (completedChans task) moves (startTask h b task envs) = Some c \<and>
      taken c = selects env
      \<longrightarrow> deliveries h b cap (completedChans task) moves (startTask h b task envs) =
            map (\<lambda>node. ID (Value node)) (Nodes task) \<and>
          (\<forall>node\<in>set (Nodes task). succeeded c (ID (Value node))))"
proof (intro conjI impI)
  assume a: "entersBarrier h env task \<and> k < length (Nodes task) \<and>
      selects env = replicate k Completed @ CtxDone err # rest"
  then have "k < length (completedChans task)" by (simp add: completedChans_def)
  with a barrier_first_other [of k "completedChans task" err rest]
  have "barrier (completedChans task) (selects env) = Return err" by simp
  with a show "fst (RunTask h b env task) = Some (Some err)"
    by (simp add: RunTask_at_barrier)
next
  assume a: "entersBarrier h env task \<and> k < length (Nodes task) \<and>
      selects env = replicate k Completed @ StepError err # rest"
  then have "k < length (completedChans task)" by (simp add: completedChans_def)
  with a barrier_first_other [of k "completedChans task" err rest]
  have "barrier (completedChans task) (selects env) = Return err" by simp
  with a show "fst (RunTask h b env task) = Some (Some err)"
    by (simp add: RunTask_at_barrier)
next
  assume a: "fst (RunTask h b env task) = Some None"
  have l: "length (completedChans task) = length (Nodes task)" by (simp add: completedChans_def)
  from RunTask_nil [OF a] show "entersBarrier h env task" by simp
  from RunTask_nil [OF a] barrier_AllCompleted [of "completedChans task" "selects env"] l
  show "length (Nodes task) \<le> length (selects env)" by simp
  from RunTask_nil [OF a] barrier_AllCompleted [of "completedChans task" "selects env"] l
  show "take (length (Nodes task)) (selects env) = replicate (length (Nodes task)) Completed"
    by simp
next
  assume a: "fst (RunTask h b env task) = Some None \<and>
      run h b cap (completedChans task) moves (startTask h b task envs) = Some c \<and>
      taken c = selects env"
  then have ac: "barrier (completedChans task) (taken c) = AllCompleted"
    using RunTask_nil [of h b env task] by simp
  from a have r: "run h b cap (completedChans task) moves (startTask h b task envs) = Some c"
    by simp
  from deliveries_AllCompleted [OF r ac]
  show "deliveries h b cap (completedChans task) moves (startTask h b task envs) =
            map (\<lambda>node. ID (Value node)) (Nodes task)"
    by (simp add: completedChans_def)
next
  assume a: "fst (RunTask h b env task) = Some None \<and>
      run h b cap (completedChans task) moves (startTask h b task envs) = Some c \<and>
      taken c = selects env"
  then have ac: "barrier (completedChans task) (taken c) = AllCompleted"
    using RunTask_nil [of h b env task] by simp
  from a have r: "run h b cap (completedChans task) moves (startTask h b task envs) = Some c"
    by simp
  from steady_run [OF steady_startTask r] have st: "steady (completedChans task) c" .
  show "\<forall>node\<in>set (Nodes task). succeeded c (ID (Value node))"
  proof
    fix node assume "node \<in> set (Nodes task)"
    then have "ID (Value node) \<in> set (completedChans task)" by (auto simp: completedChans_def)
    from steady_AllCompleted [OF st ac this] show "succeeded c (ID (Value node))" .
  qed
qed

lemma RunTask_barrier_returns_example:
  "entersBarrier exampleHelpers (quietEnv\<lparr>selects := [Completed, CtxDone ''context canceled'']\<rparr>) fanTask
   \<and> fst (RunTask exampleHelpers exampleBuilder
           (quietEnv\<lparr>selects := [Completed, CtxDone ''context canceled'']\<rparr>) fanTask)
       = Some (Some ''context canceled'')
   \<and> entersBarrier exampleHelpers (quietEnv\<lparr>selects := [StepError ''failed to run step ID: a: exit status 1'']\<rparr>) fanTask
   \<and> fst (RunTask exampleHelpers exampleBuilder
           (quietEnv\<lparr>selects := [StepError ''failed to run step ID: a: exit status 1'']\<rparr>) fanTask)
       = Some (Some ''failed to run step ID: a: exit status 1'')
   \<and> fst (RunTask exampleHelpers exampleBuilder (quietEnv\<lparr>selects := [Completed, Completed]\<rparr>)
           ignoredTask) = Some None
   \<and> \<not> Option.is_none ignoredRun
   \<and> taken (the ignoredRun) = [Completed, Completed]
   \<and> succeeded (the ignoredRun) ''a'' \<and> succeeded (the ignoredRun) ''b''"
proof -
  let ?envC = "quietEnv\<lparr>selects := [Completed, CtxDone ''context canceled'']\<rparr>"
  let ?envE = "quietEnv\<lparr>selects := [StepError ''failed to run step ID: a: exit status 1'']\<rparr>"
  let ?envN = "quietEnv\<lparr>selects := [Completed, Completed]\<rparr>"
  let ?envs = "[fails\<lparr>children := [cmdNode ''b'' ''alpine'']\<rparr>]"
  have e1: "entersBarrier exampleHelpers ?envC fanTask" by code_simp
  have l1: "(1::nat) < length (Nodes fanTask)" by code_simp
  have s1: "selects ?envC = replicate 1 Completed @ CtxDone ''context canceled'' # []"
    by (simp add: quietEnv_def)
  have e2: "entersBarrier exampleHelpers ?envE fanTask" by code_simp
  have l2: "(0::nat) < length (Nodes fanTask)" by code_simp
  have s2: "selects ?envE =
      replicate 0 Completed @ StepError ''failed to run step ID: a: exit status 1'' # []"
    by (simp add: quietEnv_def)
  have n: "fst (RunTask exampleHelpers exampleBuilder ?envN ignoredTask) = Some None"
    by code_simp
  have nodes: "Nodes ignoredTask = [ignoringNode, cmdNode ''b'' ''alpine'']"
    by (simp add: ignoredTask_def)
  have ids: "ID (Value ignoringNode) = ''a''" "ID (Value (cmdNode ''b'' ''alpine'')) = ''b''"
    by code_simp+
  have ex: "\<not> Option.is_none ignoredRun" by code_simp
  then obtain c where c: "run exampleHelpers exampleBuilder 0 (completedChans ignoredTask)
      ignoredMoves (startTask exampleHelpers exampleBuilder ignoredTask ?envs) = Some c"
    by (auto simp: ignoredRun_def ignoredStart_def Option.is_none_def)
  then have eq: "the ignoredRun = c" by (simp add: ignoredRun_def ignoredStart_def)
  have t: "taken (the ignoredRun) = [Completed, Completed]" by code_simp
  then have t': "taken c = selects ?envN" by (simp add: eq quietEnv_def)
  note inst1 = RunTask_barrier_returns [of exampleHelpers ?envC fanTask 1
      "''context canceled''" "[]" exampleBuilder]
  note inst2 = RunTask_barrier_returns [of exampleHelpers ?envE fanTask 0
      "''failed to run step ID: a: exit status 1''" "[]" exampleBuilder]
  note inst3 = RunTask_barrier_returns [of exampleHelpers ?envN ignoredTask _ _ _ exampleBuilder
      0 ignoredMoves ?envs c]
  from inst1 e1 l1 s1 have a1: "fst (RunTask exampleHelpers exampleBuilder ?envC fanTask)
       = Some (Some ''context canceled'')" by blast
  from inst2 e2 l2 s2 have a2: "fst (RunTask exampleHelpers exampleBuilder ?envE fanTask)
       = Some (Some ''failed to run step ID: a: exit status 1'')" by blast
  from inst3 n c t' have "\<forall>node\<in>set (Nodes ignoredTask). succeeded c (ID (Value node))"
    by blast
  then have a3: "succeeded c ''a''" "succeeded c ''b''"
    by (simp_all only: nodes ids list.set ball_simps insert_iff)
  from e1 a1 e2 a2 n ex t a3 show ?thesis unfolding eq by (simp only: simp_thms)
qed

text \<open>
  Claim C1. The completion barrier of \<^verbatim>\<open>RunTask\<close> returns the error of the context when the
  context is done, returns the first error posted to the error channel without waiting for
  the remaining steps, and returns nil only after the completion signal of every step has
  been received; a nil return implies that every step either succeeded or failed under
  \<open>IgnoreErrors\<close>. The last part fails in the run \<open>raceRun\<close> of \<open>diamondTask\<close>: removing the
  edge (line 226) and reading the degree (line 232) are two calls, both workers started for
  \<^verbatim>\<open>d\<close> read the degree zero, and both execute \<^verbatim>\<open>d\<close>. The barrier receives the signals of
  \<^verbatim>\<open>b\<close>, \<^verbatim>\<open>c\<close> and \<^verbatim>\<open>d\<close>, the last from the execution of \<^verbatim>\<open>d\<close> that succeeded, and \<^verbatim>\<open>RunTask\<close>
  returns nil; the other execution of \<^verbatim>\<open>d\<close>, a step that does not ignore errors, has failed:
  its worker has set the status of \<^verbatim>\<open>d\<close> to \<open>Failed\<close> and stands at its send on the error
  channel, which no select receives any more.
\<close>

theorem RunTask_nil_after_failed_step:
  "\<not> Option.is_none raceRun
   \<and> map (\<lambda>node. ID (Value node)) (Nodes diamondTask) = [''b'', ''c'', ''d'']
   \<and> taken (the raceRun) = [Completed, Completed, Completed]
   \<and> deliveries exampleHelpers exampleBuilder 0 (completedChans diamondTask) raceMoves
        (startTask exampleHelpers exampleBuilder diamondTask [beforeD, beforeD]) = [''b'', ''c'', ''d'']
   \<and> fst (RunTask exampleHelpers exampleBuilder (quietEnv\<lparr>selects := taken (the raceRun)\<rparr>)
           diamondTask) = Some None
   \<and> length (workers (the raceRun)) = 4
   \<and> removeEdgeResult succeedsAlone = None \<and> degree succeedsAlone = 0
   \<and> succeeded (the raceRun) ''d''
   \<and> removeEdgeResult failsAlone = None \<and> degree failsAlone = 0
   \<and> runResult (stepEnv failsAlone) = Some ''exit status 1''
   \<and> \<not> IgnoreErrors (Value (cmdNode ''d'' ''alpine''))
   \<and> StepStatus (fst (processVertex exampleHelpers exampleBuilder failsAlone
         (cmdNode ''c'' ''alpine'') (cmdNode ''d'' ''alpine''))) = Failed
   \<and> passed (workers (the raceRun) ! 3) =
        [ProcRunRepeatWithRetries [''docker'', ''run'', ''--name'', ''d'', ''alpine''] 0 [] 0 ''d'' 0,
         SetStatus ''d'' Failed]
   \<and> todo (workers (the raceRun) ! 3) =
        [SendError ''failed to run step ID: d: exit status 1'', SendCompleted ''d'']
   \<and> Option.is_none (makeMove exampleHelpers exampleBuilder 0 (completedChans diamondTask)
         (PostError 3) (the raceRun))"
  by code_simp


subsection \<open>The completion signal of a step\<close>

text \<open>
  The body of a worker, in program order: a worker that executes a step, because
  \<^verbatim>\<open>RemoveEdge\<close> succeeded and the degree of the node is zero, has exactly one send on the
  step's completion channel, as its last statement, whether \<open>runStep\<close> succeeded, failed, or
  failed under \<open>IgnoreErrors\<close>; a worker that does not execute the step has none. Whether the
  worker gets as far as that send depends on the sends before it.
\<close>

lemma processVertex_completion_once:
  "length (filter isCompletion (snd (snd (processVertex h b env parent child)))) =
     (if removeEdgeResult env = None \<and> degree env = 0 then 1 else 0)
   \<and> (removeEdgeResult env = None \<and> degree env = 0 \<longrightarrow>
        last (snd (snd (processVertex h b env parent child))) =
          SendCompleted (ID (fst (processVertex h b env parent child))))"
proof (cases "removeEdgeResult env")
  case (Some err)
  then show ?thesis by (simp add: processVertex_def)
next
  case None
  show ?thesis
  proof (cases "degree env = 0")
    case False
    with None show ?thesis by (simp add: processVertex_def)
  next
    case True
    obtain err step once evs where
      rs: "runStep h b (stepEnv env) (onceDone env) (Value child) = (err, step, once, evs)"
      by (cases "runStep h b (stepEnv env) (onceDone env) (Value child)") auto
    have calls: "\<forall>e\<in>set evs. \<not> isWorkerOp e" using runStep_calls [OF rs] .
    have nc: "filter isCompletion evs = []"
    proof -
      have "\<forall>e\<in>set evs. \<not> isCompletion e"
      proof
        fix e assume "e \<in> set evs"
        with calls have "\<not> isWorkerOp e" by blast
        then show "\<not> isCompletion e" by (cases e) auto
      qed
      then show ?thesis by (simp add: filter_empty_conv)
    qed
    have ng: "filter isCompletion (spawnChildren child (children env)) = []"
      by (simp add: spawnChildren_def filter_empty_conv)
    from None True rs nc ng show ?thesis
      by (cases err) (auto simp: processVertex_def)
  qed
qed

text \<open>
  A run of two failing steps: once the barrier has taken the error of \<^verbatim>\<open>a\<close>, the worker of
  \<^verbatim>\<open>b\<close> stays at its send on the error channel (line 244) and does not get to the send on
  the completion channel of \<^verbatim>\<open>b\<close> (line 252).
\<close>

lemma failing_worker_left_at_error_send:
  "\<not> Option.is_none bothFailRun
   \<and> taken (the bothFailRun) = [StepError ''failed to run step ID: a: exit status 1'']
   \<and> fst (RunTask exampleHelpers exampleBuilder (quietEnv\<lparr>selects := taken (the bothFailRun)\<rparr>)
           pairTask) = Some (Some ''failed to run step ID: a: exit status 1'')
   \<and> map todo (workers (the bothFailRun)) =
        [[SendCompleted ''a''],
         [SendError ''failed to run step ID: b: exit status 1'', SendCompleted ''b'']]
   \<and> Option.is_none (makeMove exampleHelpers exampleBuilder 0 (completedChans pairTask)
         (PostError 1) (the bothFailRun))
   \<and> Option.is_none (makeMove exampleHelpers exampleBuilder 0 (completedChans pairTask)
         (Deliver 1) (the bothFailRun))
   \<and> Option.is_none (makeMove exampleHelpers exampleBuilder 0 (completedChans pairTask)
         (Buffer 1) (the bothFailRun))"
  by code_simp




end
